theory Spec2Isabelle
  imports Complex_Main
begin

section \<open>Conventions of the embedding\<close>

text \<open>
  The Python sources compute with floats and read the wall clock. Here every float is a
  \<^typ>\<open>real\<close> and every clock reading (\<^verbatim>\<open>datetime.now()\<close>, \<^verbatim>\<open>time.time()\<close>) is an explicit
  argument, in seconds, of the function that performs the reading. An object with mutable
  attributes is a record that the function takes and returns; an exception is the left
  summand of the result. Where the source can produce an infinity or a NaN without
  raising (a numpy division by zero), the values are of the type \<open>np_float\<close> below, which
  adds the three non-finite values to the reals.
\<close>

datatype py_error =
    KeyError string
  | ValueError
  | ZeroDivisionError

section \<open>Mode arbitration: \<^verbatim>\<open>mode_manager.py\<close>\<close>

datatype TranslationMode = SPEECH_TO_SIGN | SIGN_TO_SPEECH | AUTO_DETECT

record mode_manager =
  current_mode :: TranslationMode
  audio_level_threshold :: real
  motion_level_threshold :: real
  mode_switch_cooldown :: real
  last_mode_switch :: real
  audio_levels :: "real list"
  motion_levels :: "real list"
  buffer_size :: nat

text \<open>\<^verbatim>\<open>ModeManager.__init__\<close>; the argument is the clock at construction.\<close>

definition ModeManager_init :: "real \<Rightarrow> mode_manager" where
  "ModeManager_init now =
     \<lparr> current_mode = AUTO_DETECT,
       audio_level_threshold = 0.1,
       motion_level_threshold = 0.2,
       mode_switch_cooldown = 1.0,
       last_mode_switch = now,
       audio_levels = [],
       motion_levels = [],
       buffer_size = 10 \<rparr>"

text \<open>
  \<^verbatim>\<open>xs.append(x); if len(xs) > size: xs.pop(0)\<close>. The list is never empty when
  \<^verbatim>\<open>pop(0)\<close> runs, since the append comes first.
\<close>

definition append_limited :: "nat \<Rightarrow> real list \<Rightarrow> real \<Rightarrow> real list" where
  "append_limited n xs x =
     (let ys = xs @ [x] in if length ys > n then tl ys else ys)"

text \<open>\<^verbatim>\<open>sum(xs) / len(xs) if xs else 0\<close>\<close>

definition average :: "real list \<Rightarrow> real" where
  "average xs = (if xs = [] then 0 else sum_list xs / real (length xs))"

text \<open>
  \<^verbatim>\<open>detect_active_mode(audio_level, motion_level, has_hands)\<close>. The method reads the
  clock twice: \<open>now\<close> is the reading of the cooldown check, \<open>now'\<close> the reading that
  stamps \<^verbatim>\<open>last_mode_switch\<close> when the mode changes.
\<close>

definition detect_active_mode ::
  "mode_manager \<Rightarrow> real \<Rightarrow> real \<Rightarrow> bool \<Rightarrow> real \<Rightarrow> real \<Rightarrow> TranslationMode \<times> mode_manager" where
  "detect_active_mode s audio_level motion_level has_hands now now' =
     (let s1 = s\<lparr> audio_levels := append_limited (buffer_size s) (audio_levels s) audio_level,
                   motion_levels := append_limited (buffer_size s) (motion_levels s) motion_level \<rparr>;
          avg_audio = average (audio_levels s1);
          avg_motion = average (motion_levels s1);
          time_since_switch = now - last_mode_switch s1
      in if time_since_switch < mode_switch_cooldown s1 then (current_mode s1, s1)
         else
           let detected_mode =
                 (case current_mode s1 of
                    AUTO_DETECT \<Rightarrow>
                      if avg_audio > audio_level_threshold s1 then SPEECH_TO_SIGN
                      else if has_hands \<and> avg_motion > motion_level_threshold s1 then SIGN_TO_SPEECH
                      else AUTO_DETECT
                  | SPEECH_TO_SIGN \<Rightarrow>
                      if avg_audio < audio_level_threshold s1 * 0.5 \<and> has_hands
                           \<and> avg_motion > motion_level_threshold s1
                      then SIGN_TO_SPEECH else SPEECH_TO_SIGN
                  | SIGN_TO_SPEECH \<Rightarrow>
                      if avg_audio > audio_level_threshold s1 then SPEECH_TO_SIGN
                      else SIGN_TO_SPEECH)
           in if detected_mode \<noteq> current_mode s1
              then (detected_mode, s1\<lparr> current_mode := detected_mode, last_mode_switch := now' \<rparr>)
              else (detected_mode, s1))"

text \<open>One unified input event: the three signals and the two clock readings of the call.\<close>

record signal =
  sig_audio :: real
  sig_motion :: real
  sig_hands :: bool
  sig_now :: real
  sig_stamp :: real

definition detect_event :: "mode_manager \<Rightarrow> signal \<Rightarrow> TranslationMode \<times> mode_manager" where
  "detect_event s e =
     detect_active_mode s (sig_audio e) (sig_motion e) (sig_hands e) (sig_now e) (sig_stamp e)"

text \<open>Successive calls: the modes returned, in order, and the final state.\<close>

fun run_detect :: "mode_manager \<Rightarrow> signal list \<Rightarrow> TranslationMode list \<times> mode_manager" where
  "run_detect s [] = ([], s)"
| "run_detect s (e # es) =
     (let (m, s') = detect_event s e; (ms, s'') = run_detect s' es in (m # ms, s''))"

text \<open>
  The manager as call number \<open>k\<close> of the run finds it (calls are counted from 0), and
  whether that call switches: it returns a mode other than the current mode it found.
\<close>

definition state_before :: "mode_manager \<Rightarrow> signal list \<Rightarrow> nat \<Rightarrow> mode_manager" where
  "state_before s es k = snd (run_detect s (take k es))"

definition switches_at :: "mode_manager \<Rightarrow> signal list \<Rightarrow> nat \<Rightarrow> bool" where
  "switches_at s es k \<longleftrightarrow> fst (run_detect s es) ! k \<noteq> current_mode (state_before s es k)"

section \<open>Performance governor: \<^verbatim>\<open>performance_optimizer.py\<close>\<close>

text \<open>
  The attributes of \<^verbatim>\<open>PerformanceOptimizer\<close> that the modelled methods read or write. The
  entries of the dictionary \<^verbatim>\<open>optimization_settings\<close> are fields of their own, under their
  keys. \<^verbatim>\<open>metrics\<close> maps a metric name to its window of samples (a \<^verbatim>\<open>deque(maxlen=100)\<close>,
  oldest first). \<^verbatim>\<open>_cache\<close> is the gesture dictionary in insertion order, and \<open>lru_memo\<close> is
  the table that the decorator \<^verbatim>\<open>lru_cache(maxsize=128)\<close> keeps for \<^verbatim>\<open>get_cached_gesture\<close>,
  most recently used first. The type \<open>'v\<close> stands for the cached gesture data.
\<close>

record 'v optimizer =
  metrics :: "string \<rightharpoonup> real list"
  last_frame_time :: real
  frame_count :: nat
  enable_frame_skipping :: bool
  enable_caching :: bool
  max_resolution :: "int \<times> int"
  target_fps :: real
  audio_sample_rate :: int
  gesture_cache :: "(string \<times> 'v) list"
  lru_memo :: "(string \<times> 'v option) list"

definition metric_names :: "string list" where
  "metric_names = [''audio_latency'', ''video_latency'', ''translation_latency'',
                   ''frame_rate'', ''audio_processing_time'', ''video_processing_time'']"

text \<open>\<^verbatim>\<open>PerformanceOptimizer.__init__\<close>; the argument is \<^verbatim>\<open>time.time()\<close> at construction.\<close>

definition PerformanceOptimizer_init :: "real \<Rightarrow> 'v optimizer" where
  "PerformanceOptimizer_init now =
     \<lparr> metrics = (\<lambda>name. if name \<in> set metric_names then Some [] else None),
       last_frame_time = now,
       frame_count = 0,
       enable_frame_skipping = True,
       enable_caching = True,
       max_resolution = (640, 480),
       target_fps = 15,
       audio_sample_rate = 16000,
       gesture_cache = [],
       lru_memo = [] \<rparr>"

text \<open>\<^verbatim>\<open>deque(maxlen=n).append(x)\<close>: a full window drops its oldest sample.\<close>

definition deque_append :: "nat \<Rightarrow> 'a list \<Rightarrow> 'a \<Rightarrow> 'a list" where
  "deque_append maxlen xs x =
     (if maxlen = 0 then []
      else if length xs \<ge> maxlen then tl xs @ [x] else xs @ [x])"

text \<open>
  \<^verbatim>\<open>measure_latency(start_time, metric_name)\<close>, with the clock reading \<open>now\<close>: the latency
  in milliseconds is returned, and recorded only under a known metric name.
\<close>

definition measure_latency :: "'v optimizer \<Rightarrow> real \<Rightarrow> string \<Rightarrow> real \<Rightarrow> real \<times> 'v optimizer" where
  "measure_latency s start_time metric_name now =
     (let latency = (now - start_time) * 1000
      in case metrics s metric_name of
           Some window \<Rightarrow>
             (latency, s\<lparr> metrics := (metrics s)(metric_name \<mapsto> deque_append 100 window latency) \<rparr>)
         | None \<Rightarrow> (latency, s))"

text \<open>\<^verbatim>\<open>should_skip_frame()\<close>, with the clock reading \<open>current_time\<close>.\<close>

definition should_skip_frame :: "'v optimizer \<Rightarrow> real \<Rightarrow> bool \<times> 'v optimizer" where
  "should_skip_frame s current_time =
     (if \<not> enable_frame_skipping s then (False, s)
      else
        let time_since_last_frame = current_time - last_frame_time s;
            current_fps = (if time_since_last_frame > 0 then 1.0 / time_since_last_frame else 0)
        in if current_fps > target_fps s then (True, s)
           else (False, s\<lparr> last_frame_time := current_time \<rparr>))"

text \<open>
  \<^verbatim>\<open>get_performance_stats()\<close>: one entry for every metric whose window is not empty. Of the
  entry only the mean, the minimum and the maximum are kept here; the 95th percentile and
  \<^verbatim>\<open>current_fps\<close> are read by no modelled method.
\<close>

record metric_stats =
  avg :: real
  min_value :: real
  max_value :: real

definition get_performance_stats :: "'v optimizer \<Rightarrow> (string \<rightharpoonup> metric_stats)" where
  "get_performance_stats s =
     (\<lambda>name. case metrics s name of
        None \<Rightarrow> None
      | Some values \<Rightarrow>
          if values = [] then None
          else Some \<lparr> avg = sum_list values / real (length values),
                      min_value = Min (set values),
                      max_value = Max (set values) \<rparr>)"

text \<open>\<^verbatim>\<open>stats.get(name, {}).get("avg", 0)\<close>\<close>

definition stats_avg :: "(string \<rightharpoonup> metric_stats) \<Rightarrow> string \<Rightarrow> real" where
  "stats_avg stats name = (case stats name of None \<Rightarrow> 0 | Some st \<Rightarrow> avg st)"

text \<open>Python's \<^verbatim>\<open>int(x)\<close> on a float: truncation towards zero.\<close>

definition py_int :: "real \<Rightarrow> int" where
  "py_int x = (if x \<ge> 0 then \<lfloor>x\<rfloor> else \<lceil>x\<rceil>)"

text \<open>\<^verbatim>\<open>auto_adjust_quality()\<close>\<close>

definition auto_adjust_quality :: "'v optimizer \<Rightarrow> 'v optimizer" where
  "auto_adjust_quality s =
     (let stats = get_performance_stats s;
          avg_video_latency = stats_avg stats ''video_latency'';
          avg_audio_latency = stats_avg stats ''audio_latency'';
          s1 = (if avg_video_latency > 100
                then let current_res = max_resolution s;
                         new_width = py_int (real_of_int (fst current_res) * 0.8);
                         new_height = py_int (real_of_int (snd current_res) * 0.8)
                     in s\<lparr> max_resolution := (max 320 new_width, max 240 new_height) \<rparr>
                else s)
      in if avg_audio_latency > 50
         then s1\<lparr> audio_sample_rate := max 8000 (audio_sample_rate s1 - 2000) \<rparr>
         else s1)"

text \<open>
  Calls on one governor, in any order. \<open>Measure start name now\<close> is
  \<^verbatim>\<open>measure_latency(start, name)\<close> read at clock \<open>now\<close>.
\<close>

datatype governor_call = Measure real string real | SkipCheck real | AdjustQuality

fun governor_step :: "'v optimizer \<Rightarrow> governor_call \<Rightarrow> 'v optimizer" where
  "governor_step s (Measure start_time name now) = snd (measure_latency s start_time name now)"
| "governor_step s (SkipCheck now) = snd (should_skip_frame s now)"
| "governor_step s AdjustQuality = auto_adjust_quality s"

definition governor_run :: "'v optimizer \<Rightarrow> governor_call list \<Rightarrow> 'v optimizer" where
  "governor_run s calls = foldl governor_step s calls"

subsection \<open>The gesture cache and its memoised lookup\<close>

text \<open>\<^verbatim>\<open>d[k] = v\<close> on a dictionary kept in insertion order: a present key keeps its place.\<close>

fun dict_set :: "('k \<times> 'a) list \<Rightarrow> 'k \<Rightarrow> 'a \<Rightarrow> ('k \<times> 'a) list" where
  "dict_set [] k v = [(k, v)]"
| "dict_set ((k', v') # d) k v = (if k' = k then (k, v) # d else (k', v') # dict_set d k v)"

text \<open>
  \<^verbatim>\<open>cache_gesture(gesture_key, data)\<close>: beyond 100 entries the 20 oldest are deleted. The
  memo table of the lookup is not touched.
\<close>

definition cache_gesture :: "'v optimizer \<Rightarrow> string \<Rightarrow> 'v \<Rightarrow> 'v optimizer" where
  "cache_gesture s gesture_key data =
     (if enable_caching s
      then let c = dict_set (gesture_cache s) gesture_key data
           in s\<lparr> gesture_cache := (if length c > 100 then drop 20 c else c) \<rparr>
      else s)"

text \<open>
  \<^verbatim>\<open>get_cached_gesture(gesture_key)\<close> under \<^verbatim>\<open>lru_cache(maxsize=128)\<close>: a key found in the memo
  table is answered from the table and becomes the most recent entry; otherwise the body
  \<^verbatim>\<open>self._cache.get(gesture_key)\<close> runs, its result is stored as the most recent entry, and
  the least recent entry is dropped when the table holds more than 128.
\<close>

definition get_cached_gesture :: "'v optimizer \<Rightarrow> string \<Rightarrow> 'v option \<times> 'v optimizer" where
  "get_cached_gesture s gesture_key =
     (case map_of (lru_memo s) gesture_key of
        Some r \<Rightarrow>
          (r, s\<lparr> lru_memo := (gesture_key, r) # filter (\<lambda>e. fst e \<noteq> gesture_key) (lru_memo s) \<rparr>)
      | None \<Rightarrow>
          let r = map_of (gesture_cache s) gesture_key;
              memo = (gesture_key, r) # lru_memo s
          in (r, s\<lparr> lru_memo := (if length memo > 128 then butlast memo else memo) \<rparr>))"

datatype 'v cache_call = Lookup string | Store string 'v

fun cache_step :: "'v optimizer \<Rightarrow> 'v cache_call \<Rightarrow> 'v optimizer" where
  "cache_step s (Lookup k) = snd (get_cached_gesture s k)"
| "cache_step s (Store k data) = cache_gesture s k data"

definition cache_run :: "'v optimizer \<Rightarrow> 'v cache_call list \<Rightarrow> 'v optimizer" where
  "cache_run s calls = foldl cache_step s calls"

text \<open>The number of lookups among \<open>calls\<close> that ask for a key other than \<open>k\<close>.\<close>

fun other_lookups :: "string \<Rightarrow> 'v cache_call list \<Rightarrow> nat" where
  "other_lookups k [] = 0"
| "other_lookups k (Lookup k' # calls) = (if k' = k then 0 else 1) + other_lookups k calls"
| "other_lookups k (Store k' data # calls) = other_lookups k calls"


section \<open>Two-channel fusion: \<^verbatim>\<open>services/ensemble_translator.py\<close>\<close>

subsection \<open>Floats that may be infinite or NaN\<close>

datatype np_float = Finite real | PosInf | NegInf | NaN

text \<open>
  \<^verbatim>\<open>x / t\<close> on a numpy array element \<open>x\<close> and a Python number \<open>t\<close>, both finite: numpy does
  not raise on a zero divisor, it yields an infinity of the sign of \<open>x\<close>, or NaN for
  \<open>0 / 0\<close>. The sum of the weights is never a negative zero.
\<close>

definition np_div :: "real \<Rightarrow> real \<Rightarrow> np_float" where
  "np_div x t =
     (if t \<noteq> 0 then Finite (x / t)
      else if x > 0 then PosInf
      else if x < 0 then NegInf
      else NaN)"

text \<open>The comparison \<^verbatim>\<open>a <= b\<close> of two floats: false as soon as one of them is NaN.\<close>

fun np_le :: "np_float \<Rightarrow> np_float \<Rightarrow> bool" where
  "np_le NaN b = False"
| "np_le a NaN = False"
| "np_le NegInf b = True"
| "np_le a PosInf = True"
| "np_le (Finite x) (Finite y) = (x \<le> y)"
| "np_le PosInf b = False"
| "np_le (Finite x) NegInf = False"

text \<open>
  \<^verbatim>\<open>np.argmax\<close> on a non-empty array of floats, as numpy's loop runs: \<open>mp\<close> is the
  greatest value so far and \<open>max_ind\<close> its index; an element takes over when
  \<^verbatim>\<open>!(x <= mp)\<close>; the first NaN ends the search and is the answer.
\<close>

fun argmax_loop :: "np_float \<Rightarrow> nat \<Rightarrow> nat \<Rightarrow> np_float list \<Rightarrow> nat" where
  "argmax_loop mp max_ind i [] = max_ind"
| "argmax_loop mp max_ind i (x # xs) =
     (if \<not> np_le x mp
      then (if x = NaN then i else argmax_loop x i (Suc i) xs)
      else argmax_loop mp max_ind (Suc i) xs)"

fun np_argmax :: "np_float list \<Rightarrow> nat" where
  "np_argmax [] = 0"
| "np_argmax (x # xs) = (if x = NaN then 0 else argmax_loop x 0 1 xs)"

text \<open>
  Python float arithmetic of the running mean: a float times an integer, the sum of two
  floats, a float divided by a positive integer. None of them raises.
\<close>

fun np_scale :: "np_float \<Rightarrow> real \<Rightarrow> np_float" where
  "np_scale (Finite x) k = Finite (x * k)"
| "np_scale PosInf k = (if k > 0 then PosInf else if k < 0 then NegInf else NaN)"
| "np_scale NegInf k = (if k > 0 then NegInf else if k < 0 then PosInf else NaN)"
| "np_scale NaN k = NaN"

fun np_add :: "np_float \<Rightarrow> np_float \<Rightarrow> np_float" where
  "np_add NaN b = NaN"
| "np_add a NaN = NaN"
| "np_add (Finite x) (Finite y) = Finite (x + y)"
| "np_add PosInf NegInf = NaN"
| "np_add NegInf PosInf = NaN"
| "np_add PosInf b = PosInf"
| "np_add a PosInf = PosInf"
| "np_add NegInf b = NegInf"
| "np_add a NegInf = NegInf"

fun np_quot :: "np_float \<Rightarrow> real \<Rightarrow> np_float" where
  "np_quot (Finite x) k = Finite (x / k)"
| "np_quot PosInf k = (if k > 0 then PosInf else NegInf)"
| "np_quot NegInf k = (if k > 0 then NegInf else PosInf)"
| "np_quot NaN k = NaN"

text \<open>The float sum of a list, from the left, starting at zero.\<close>

definition np_sum :: "np_float list \<Rightarrow> np_float" where
  "np_sum xs = foldl np_add (Finite 0) xs"

subsection \<open>Predictions, results and the translator\<close>

text \<open>
  A prediction as a scorer hands it to the fusion: the dictionary built by
  \<^verbatim>\<open>_get_i3d_prediction\<close> or \<^verbatim>\<open>_get_tgcn_prediction\<close>. The score vector is a one-dimensional
  array. Of an unsuccessful prediction only \<open>success\<close> and \<open>model\<close> are read.
\<close>

record model_output =
  success :: bool
  model :: string
  prediction :: nat
  confidence :: real
  probabilities :: "real list"
  top_k_indices :: "nat list"
  top_k_confidences :: "real list"

text \<open>An entry of \<^verbatim>\<open>model_results\<close>: what the fused result reports of one channel.\<close>

record model_result =
  mr_prediction :: nat
  mr_confidence :: real
  mr_top_k :: "(nat \<times> real) list"

text \<open>
  The dictionary that the two-channel path returns. The gloss, the text, the top-k lists
  and the latency are left out: they come from the vocabulary, from an unstable sort and
  from the clock, and neither the statistics nor the other fields depend on them.
\<close>

record fused_result =
  fr_prediction :: nat
  fr_confidence :: np_float
  fr_probabilities :: "np_float list"
  fr_method :: string
  fr_models_used :: "string list"
  fr_model_results :: "(string \<times> model_result) list"
  fr_agreement :: bool

text \<open>
  The three shapes of the returned dictionary: the failure \<^verbatim>\<open>{'success': False, 'error':
  'No valid predictions', 'method': 'ensemble'}\<close>; the copy of the only valid prediction
  with its added keys \<^verbatim>\<open>method\<close> and \<^verbatim>\<open>models_used\<close>; the fused result.
\<close>

datatype ensemble_result =
    NoValidPredictions
  | SingleModel model_output string "string list"
  | Ensemble fused_result

record ensemble_stats =
  stat_ensemble_predictions :: nat
  stat_i3d_only :: nat
  stat_tgcn_only :: nat
  stat_agreement_rate :: real
  stat_average_confidence :: np_float

record translator =
  ensemble_weights :: "(string \<times> real) list"
  stats :: ensemble_stats
  results_cache :: "fused_result list"

text \<open>
  \<^verbatim>\<open>EnsembleTranslator.__init__\<close>, its argument \<^verbatim>\<open>ensemble_weights\<close>:
  \<^verbatim>\<open>self.ensemble_weights = ensemble_weights or {'i3d': 0.6, 'tgcn': 0.4}\<close>, where \<^verbatim>\<open>None\<close>
  and the empty dictionary are both false.
\<close>

definition EnsembleTranslator_init :: "(string \<times> real) list option \<Rightarrow> translator" where
  "EnsembleTranslator_init weights =
     \<lparr> ensemble_weights =
         (case weights of
            None \<Rightarrow> [(''i3d'', 0.6), (''tgcn'', 0.4)]
          | Some ws \<Rightarrow> if ws = [] then [(''i3d'', 0.6), (''tgcn'', 0.4)] else ws),
       stats = \<lparr> stat_ensemble_predictions = 0,
                 stat_i3d_only = 0,
                 stat_tgcn_only = 0,
                 stat_agreement_rate = 0,
                 stat_average_confidence = Finite 0 \<rparr>,
       results_cache = [] \<rparr>"

text \<open>\<^verbatim>\<open>self.ensemble_weights.get(model, 0.5)\<close>\<close>

definition weight_of :: "(string \<times> real) list \<Rightarrow> string \<Rightarrow> real" where
  "weight_of ws m = (case map_of ws m of Some w \<Rightarrow> w | None \<Rightarrow> 0.5)"

text \<open>
  \<^verbatim>\<open>a += b\<close> on one-dimensional arrays: elementwise on equal shapes, a one-element \<open>b\<close> is
  broadcast over \<open>a\<close>, any other pair of shapes raises \<^verbatim>\<open>ValueError\<close>.
\<close>

definition np_iadd :: "real list \<Rightarrow> real list \<Rightarrow> py_error + real list" where
  "np_iadd a b =
     (if length b = length a then Inr (map2 (+) a b)
      else if length b = 1 then Inr (map (\<lambda>x. x + hd b) a)
      else Inl ValueError)"

text \<open>The entry that the loop stores in \<^verbatim>\<open>model_results\<close> for one prediction.\<close>

definition model_entry :: "model_output \<Rightarrow> model_result" where
  "model_entry pred =
     \<lparr> mr_prediction = prediction pred,
       mr_confidence = confidence pred,
       mr_top_k = zip (top_k_indices pred) (top_k_confidences pred) \<rparr>"

text \<open>
  The loop over the valid predictions: \<open>acc\<close> is \<^verbatim>\<open>ensemble_probs\<close> (\<^verbatim>\<open>None\<close> before the
  first prediction), \<open>results\<close> is \<^verbatim>\<open>model_results\<close>.
\<close>

fun fuse_loop ::
  "(string \<times> real) list \<Rightarrow> model_output list \<Rightarrow> real list option \<Rightarrow> (string \<times> model_result) list
     \<Rightarrow> py_error + (real list option \<times> (string \<times> model_result) list)" where
  "fuse_loop ws [] acc results = Inr (acc, results)"
| "fuse_loop ws (pred # preds) acc results =
     (let weight = weight_of ws (model pred);
          weighted_probs = map (\<lambda>x. x * weight) (probabilities pred)
      in case (case acc of None \<Rightarrow> Inr weighted_probs | Some e \<Rightarrow> np_iadd e weighted_probs) of
           Inl err \<Rightarrow> Inl err
         | Inr e \<Rightarrow>
             fuse_loop ws preds (Some e) (dict_set results (model pred) (model_entry pred)))"

text \<open>
  \<^verbatim>\<open>_ensemble_predictions(predictions)\<close>. The source divides the summed vector by the sum of
  the stored weights without a check: on a zero sum the scores become infinities and NaN,
  and the method goes on with them, returns its result and writes the statistics.
  \<^verbatim>\<open>np.argmax\<close> raises \<^verbatim>\<open>ValueError\<close> on an empty vector.
\<close>

definition ensemble_predictions ::
  "translator \<Rightarrow> model_output list \<Rightarrow> py_error + (ensemble_result \<times> translator)" where
  "ensemble_predictions t predictions =
     (let valid_predictions = filter success predictions
      in if valid_predictions = [] then Inr (NoValidPredictions, t)
         else if length valid_predictions = 1
         then
           let p = hd valid_predictions;
               result = SingleModel p ''ensemble_single'' [model p]
           in if model p = ''i3d''
              then Inr (result, t\<lparr> stats := (stats t)\<lparr> stat_i3d_only := stat_i3d_only (stats t) + 1 \<rparr> \<rparr>)
              else if model p = ''tgcn''
              then Inr (result, t\<lparr> stats := (stats t)\<lparr> stat_tgcn_only := stat_tgcn_only (stats t) + 1 \<rparr> \<rparr>)
              else Inl (KeyError (model p @ ''_only''))
         else
           case fuse_loop (ensemble_weights t) valid_predictions None [] of
             Inl err \<Rightarrow> Inl err
           | Inr (acc, model_results) \<Rightarrow>
               let summed = (case acc of None \<Rightarrow> [] | Some e \<Rightarrow> e);
                   total = sum_list (map snd (ensemble_weights t));
                   ensemble_probs = map (\<lambda>x. np_div x total) summed
               in if ensemble_probs = [] then Inl ValueError
                  else
                    let prediction_id = np_argmax ensemble_probs;
                        conf = ensemble_probs ! prediction_id;
                        model_predictions = map (\<lambda>r. mr_prediction (snd r)) model_results;
                        agreement = (length (remdups model_predictions) = 1);
                        n = stat_ensemble_predictions (stats t) + 1;
                        stats' = (stats t)
                          \<lparr> stat_ensemble_predictions := n,
                            stat_agreement_rate :=
                              (stat_agreement_rate (stats t) * real (n - 1) + (if agreement then 1 else 0))
                                / real n,
                            stat_average_confidence :=
                              np_quot (np_add (np_scale (stat_average_confidence (stats t)) (real (n - 1)))
                                              conf)
                                      (real n) \<rparr>;
                        result =
                          \<lparr> fr_prediction = prediction_id,
                            fr_confidence = conf,
                            fr_probabilities = ensemble_probs,
                            fr_method = ''ensemble'',
                            fr_models_used = map fst model_results,
                            fr_model_results = model_results,
                            fr_agreement = agreement \<rparr>
                    in Inr (Ensemble result,
                            t\<lparr> stats := stats',
                               results_cache := deque_append 10 (results_cache t) result \<rparr>))"

text \<open>
  \<^verbatim>\<open>update_ensemble_weights(weights)\<close>: each weight is divided by the total, which raises
  \<^verbatim>\<open>ZeroDivisionError\<close> when the total is zero and there is a weight to divide.
\<close>

definition update_ensemble_weights ::
  "translator \<Rightarrow> (string \<times> real) list \<Rightarrow> py_error + translator" where
  "update_ensemble_weights t weights =
     (let total = sum_list (map snd weights)
      in if weights \<noteq> [] \<and> total = 0 then Inl ZeroDivisionError
         else Inr (t\<lparr> ensemble_weights := map (\<lambda>(k, v). (k, v / total)) weights \<rparr>))"

text \<open>
  Successive fusions on one translator. A call that raises leaves the translator as it
  was: every raise of the method comes before its first write.
\<close>

fun run_fusions ::
  "translator \<Rightarrow> model_output list list \<Rightarrow> (py_error + ensemble_result) list \<times> translator" where
  "run_fusions t [] = ([], t)"
| "run_fusions t (ps # rest) =
     (case ensemble_predictions t ps of
        Inl err \<Rightarrow> (let (rs, t') = run_fusions t rest in (Inl err # rs, t'))
      | Inr (r, t1) \<Rightarrow> (let (rs, t') = run_fusions t1 rest in (Inr r # rs, t')))"

text \<open>The fused results and the passed-through predictions among the outcomes of a run.\<close>

fun fused_of :: "(py_error + ensemble_result) list \<Rightarrow> fused_result list" where
  "fused_of [] = []"
| "fused_of (Inr (Ensemble r) # rs) = r # fused_of rs"
| "fused_of (x # rs) = fused_of rs"

fun singles_of :: "(py_error + ensemble_result) list \<Rightarrow> model_output list" where
  "singles_of [] = []"
| "singles_of (Inr (SingleModel p m u) # rs) = p # singles_of rs"
| "singles_of (x # rs) = singles_of rs"


section \<open>Properties of the mode arbitration\<close>

lemma detect_in_cooldown:
  assumes "now - last_mode_switch s < mode_switch_cooldown s"
  shows "detect_active_mode s a m h now now' =
    (current_mode s,
     s\<lparr> audio_levels := append_limited (buffer_size s) (audio_levels s) a,
        motion_levels := append_limited (buffer_size s) (motion_levels s) m \<rparr>)"
  using assms by (simp add: detect_active_mode_def Let_def)

lemma detect_buffers:
  "audio_levels (snd (detect_active_mode s a m h now now')) =
     append_limited (buffer_size s) (audio_levels s) a"
  "motion_levels (snd (detect_active_mode s a m h now now')) =
     append_limited (buffer_size s) (motion_levels s) m"
  "buffer_size (snd (detect_active_mode s a m h now now')) = buffer_size s"
  by (simp_all add: detect_active_mode_def Let_def)

lemma run_detect_in_cooldown:
  assumes "\<forall>e\<in>set es. sig_now e - last_mode_switch s < mode_switch_cooldown s"
  shows "fst (run_detect s es) = replicate (length es) (current_mode s)
       \<and> current_mode (snd (run_detect s es)) = current_mode s
       \<and> last_mode_switch (snd (run_detect s es)) = last_mode_switch s"
  using assms
proof (induction es arbitrary: s)
  case Nil
  then show ?case by simp
next
  case (Cons e es)
  let ?s' = "s\<lparr> audio_levels := append_limited (buffer_size s) (audio_levels s) (sig_audio e),
        motion_levels := append_limited (buffer_size s) (motion_levels s) (sig_motion e) \<rparr>"
  from Cons.prems have e: "sig_now e - last_mode_switch s < mode_switch_cooldown s" by simp
  have step: "detect_event s e = (current_mode s, ?s')"
    unfolding detect_event_def using e by (rule detect_in_cooldown)
  have "\<forall>e\<in>set es. sig_now e - last_mode_switch ?s' < mode_switch_cooldown ?s'"
    using Cons.prems by simp
  from Cons.IH[OF this] show ?case
    by (cases "run_detect ?s' es") (simp add: step)
qed

lemma append_limited_drop:
  "length xs \<le> n \<Longrightarrow> append_limited n xs x = drop (length (xs @ [x]) - n) (xs @ [x])"
  by (cases xs) (auto simp: append_limited_def Let_def drop_Suc le_Suc_eq Suc_diff_le)

lemma append_limited_length:
  "length xs \<le> n \<Longrightarrow> length (append_limited n xs x) \<le> n"
  by (auto simp: append_limited_def Let_def)

lemma drop_window_append:
  assumes "length xs \<le> n"
  shows "drop (length (append_limited n xs x @ zs) - n) (append_limited n xs x @ zs)
       = drop (length (xs @ x # zs) - n) (xs @ x # zs)"
proof (cases "length xs < n")
  case True
  then show ?thesis by (simp add: append_limited_def Let_def)
next
  case False
  with assms have len: "length xs = n" by simp
  then have al: "append_limited n xs x = tl (xs @ [x])"
    by (simp add: append_limited_def Let_def)
  have "drop (length (xs @ x # zs) - n) (xs @ x # zs) = drop (Suc (length zs)) ((xs @ [x]) @ zs)"
    using len by simp
  also have "\<dots> = drop (length zs) (tl ((xs @ [x]) @ zs))"
    by (simp only: drop_Suc)
  also have "tl ((xs @ [x]) @ zs) = tl (xs @ [x]) @ zs"
    by (cases xs) simp_all
  finally show ?thesis using len al by simp
qed

lemma run_detect_buffers:
  assumes "length (audio_levels s) \<le> buffer_size s" and "length (motion_levels s) \<le> buffer_size s"
  shows "audio_levels (snd (run_detect s es)) =
           drop (length (audio_levels s @ map sig_audio es) - buffer_size s)
                (audio_levels s @ map sig_audio es)
       \<and> motion_levels (snd (run_detect s es)) =
           drop (length (motion_levels s @ map sig_motion es) - buffer_size s)
                (motion_levels s @ map sig_motion es)
       \<and> buffer_size (snd (run_detect s es)) = buffer_size s"
  using assms
proof (induction es arbitrary: s)
  case Nil
  then show ?case by simp
next
  case (Cons e es)
  obtain m s1 where step: "detect_event s e = (m, s1)" by (cases "detect_event s e")
  have s1: "s1 = snd (detect_active_mode s (sig_audio e) (sig_motion e) (sig_hands e) (sig_now e) (sig_stamp e))"
    using step by (simp add: detect_event_def)
  have a1: "audio_levels s1 = append_limited (buffer_size s) (audio_levels s) (sig_audio e)"
    and m1: "motion_levels s1 = append_limited (buffer_size s) (motion_levels s) (sig_motion e)"
    and b1: "buffer_size s1 = buffer_size s"
    unfolding s1 by (rule detect_buffers)+
  have la: "length (audio_levels s1) \<le> buffer_size s1"
    unfolding a1 b1 using Cons.prems(1) by (rule append_limited_length)
  have lm: "length (motion_levels s1) \<le> buffer_size s1"
    unfolding m1 b1 using Cons.prems(2) by (rule append_limited_length)
  note IH = Cons.IH[OF la lm]
  have run: "snd (run_detect s (e # es)) = snd (run_detect s1 es)"
    by (cases "run_detect s1 es") (simp add: step)
  have A: "audio_levels (snd (run_detect s (e # es))) =
      drop (length (audio_levels s @ map sig_audio (e # es)) - buffer_size s)
           (audio_levels s @ map sig_audio (e # es))"
    using IH drop_window_append[OF Cons.prems(1), of "sig_audio e" "map sig_audio es"]
    by (simp only: run a1 b1 list.map)
  have M: "motion_levels (snd (run_detect s (e # es))) =
      drop (length (motion_levels s @ map sig_motion (e # es)) - buffer_size s)
           (motion_levels s @ map sig_motion (e # es))"
    using IH drop_window_append[OF Cons.prems(2), of "sig_motion e" "map sig_motion es"]
    by (simp only: run m1 b1 list.map)
  from A M IH show ?case by (simp only: run b1 simp_thms)
qed

lemma run_detect_append:
  "run_detect s (xs @ ys) =
     (fst (run_detect s xs) @ fst (run_detect (snd (run_detect s xs)) ys),
      snd (run_detect (snd (run_detect s xs)) ys))"
proof (induction xs arbitrary: s)
  case Nil
  show ?case by simp
next
  case (Cons e xs)
  obtain m s1 where step: "detect_event s e = (m, s1)" by (cases "detect_event s e")
  show ?case by (simp add: step Cons.IH[of s1] split: prod.splits)
qed

lemma run_detect_length: "length (fst (run_detect s es)) = length es"
proof (induction es arbitrary: s)
  case Nil
  show ?case by simp
next
  case (Cons e es)
  obtain m s1 where step: "detect_event s e = (m, s1)" by (cases "detect_event s e")
  show ?case using Cons.IH[of s1] by (cases "run_detect s1 es") (simp add: step)
qed

lemma run_detect_nth:
  assumes "k < length es"
  shows "fst (run_detect s es) ! k = fst (detect_event (state_before s es k) (es ! k))"
proof -
  have split: "es = take k es @ es ! k # drop (Suc k) es"
    using assms by (rule id_take_nth_drop)
  let ?s = "snd (run_detect s (take k es))"
  have len: "length (fst (run_detect s (take k es))) = k"
    using assms by (simp add: run_detect_length)
  have "fst (run_detect s es) =
      fst (run_detect s (take k es)) @ fst (run_detect ?s (es ! k # drop (Suc k) es))"
    by (subst split) (simp only: run_detect_append fst_conv)
  then have "fst (run_detect s es) ! k = fst (run_detect ?s (es ! k # drop (Suc k) es)) ! 0"
    using len by (simp add: nth_append)
  also have "\<dots> = fst (detect_event ?s (es ! k))"
    by (simp split: prod.splits)
  finally show ?thesis by (simp add: state_before_def)
qed

lemma state_before_Suc:
  assumes "k < length es"
  shows "state_before s es (Suc k) = snd (detect_event (state_before s es k) (es ! k))"
proof -
  have "take (Suc k) es = take k es @ [es ! k]"
    using assms by (rule take_Suc_conv_app_nth)
  then show ?thesis
    by (simp add: state_before_def run_detect_append split: prod.splits)
qed

lemma detect_event_step:
  "current_mode (snd (detect_event s e)) = fst (detect_event s e)"
  "last_mode_switch (snd (detect_event s e)) =
     (if fst (detect_event s e) \<noteq> current_mode s then sig_stamp e else last_mode_switch s)"
  "fst (detect_event s e) \<noteq> current_mode s \<Longrightarrow>
     mode_switch_cooldown s \<le> sig_now e - last_mode_switch s"
  "mode_switch_cooldown (snd (detect_event s e)) = mode_switch_cooldown s"
  by (auto simp: detect_event_def detect_active_mode_def Let_def split: if_splits)

lemma state_before_0: "state_before s es 0 = s"
  by (simp add: state_before_def)

lemma state_before_cooldown:
  "mode_switch_cooldown (state_before s es k) = mode_switch_cooldown s"
proof (induction k)
  case 0
  show ?case by (simp add: state_before_0)
next
  case (Suc k)
  show ?case
  proof (cases "k < length es")
    case True
    then show ?thesis using Suc by (simp add: state_before_Suc detect_event_step)
  next
    case False
    then have "take (Suc k) es = take k es" by simp
    then show ?thesis using Suc by (simp add: state_before_def)
  qed
qed

lemma call_facts:
  assumes "k < length es"
  shows "current_mode (state_before s es (Suc k)) = fst (run_detect s es) ! k"
    and "last_mode_switch (state_before s es (Suc k)) =
          (if switches_at s es k then sig_stamp (es ! k) else last_mode_switch (state_before s es k))"
    and "switches_at s es k \<Longrightarrow>
          mode_switch_cooldown s \<le> sig_now (es ! k) - last_mode_switch (state_before s es k)"
proof -
  let ?b = "state_before s es k"
  have nth: "fst (run_detect s es) ! k = fst (detect_event ?b (es ! k))"
    using assms by (rule run_detect_nth)
  have suc: "state_before s es (Suc k) = snd (detect_event ?b (es ! k))"
    using assms by (rule state_before_Suc)
  show "current_mode (state_before s es (Suc k)) = fst (run_detect s es) ! k"
    unfolding nth suc by (rule detect_event_step)
  show "last_mode_switch (state_before s es (Suc k)) =
          (if switches_at s es k then sig_stamp (es ! k) else last_mode_switch ?b)"
    unfolding suc switches_at_def nth by (rule detect_event_step)
  show "mode_switch_cooldown s \<le> sig_now (es ! k) - last_mode_switch ?b" if "switches_at s es k"
  proof -
    from that have "fst (detect_event ?b (es ! k)) \<noteq> current_mode ?b"
      by (simp add: switches_at_def nth)
    then have "mode_switch_cooldown ?b \<le> sig_now (es ! k) - last_mode_switch ?b"
      by (rule detect_event_step)
    then show ?thesis by (simp only: state_before_cooldown)
  qed
qed

lemma quiet_stretch:
  assumes "i \<le> j" and "j \<le> length es" and "\<forall>k. i \<le> k \<and> k < j \<longrightarrow> \<not> switches_at s es k"
  shows "last_mode_switch (state_before s es j) = last_mode_switch (state_before s es i)"
  using assms
proof (induction j)
  case 0
  then show ?case by simp
next
  case (Suc j)
  show ?case
  proof (cases "i = Suc j")
    case True
    then show ?thesis by simp
  next
    case False
    with Suc.prems have ij: "i \<le> j" and j: "j < length es" by simp_all
    have quiet: "\<not> switches_at s es j" using Suc.prems(3) ij by simp
    have "last_mode_switch (state_before s es (Suc j)) = last_mode_switch (state_before s es j)"
      using call_facts(2)[OF j, of s] quiet by simp
    moreover have "last_mode_switch (state_before s es j) = last_mode_switch (state_before s es i)"
      using Suc.IH ij j Suc.prems(3) by simp
    ultimately show ?thesis by simp
  qed
qed

lemma switches_apart:
  assumes "i < j" and "j < length es" and "switches_at s es i" and "switches_at s es j"
    and "\<forall>k. i < k \<and> k < j \<longrightarrow> \<not> switches_at s es k"
  shows "mode_switch_cooldown s \<le> sig_now (es ! j) - sig_stamp (es ! i)"
proof -
  have i: "i < length es" using assms(1,2) by simp
  have stamp: "last_mode_switch (state_before s es (Suc i)) = sig_stamp (es ! i)"
    using call_facts(2)[OF i, of s] assms(3) by simp
  have "last_mode_switch (state_before s es j) = last_mode_switch (state_before s es (Suc i))"
    using assms(1,2,5) by (intro quiet_stretch) simp_all
  then have "last_mode_switch (state_before s es j) = sig_stamp (es ! i)"
    using stamp by simp
  then show ?thesis using call_facts(3)[OF assms(2) assms(4)] by simp
qed

lemma first_switch_after_cooldown:
  assumes "j < length es" and "switches_at s es j" and "\<forall>k<j. \<not> switches_at s es k"
  shows "mode_switch_cooldown s \<le> sig_now (es ! j) - last_mode_switch s"
proof -
  have "last_mode_switch (state_before s es j) = last_mode_switch (state_before s es 0)"
    using assms(1,3) by (intro quiet_stretch) simp_all
  then show ?thesis using call_facts(3)[OF assms(1) assms(2)] by (simp add: state_before_0)
qed

text \<open>
  C1, as amended. A call of \<open>detect_active_mode\<close> that reads the clock less than
  \<open>mode_switch_cooldown\<close> seconds after the time of the last switch returns the current mode
  and makes no transition, whatever the audio level, the motion level and the hands
  flag. A call that switches stamps the time of the last switch with its own clock
  reading, and a call that does not switch leaves that time alone. Consequently, for any
  sequence of calls, from the stamp of one switch to the clock reading of the call that
  makes the next switch at least \<open>mode_switch_cooldown\<close> seconds pass, and the first switch
  of the run comes at least that long after the time of the last switch the run started
  with: no two mode transitions happen within the cooldown of each other. Calls that all
  fall inside the cooldown of the starting state return its mode throughout.
\<close>

theorem cooldown_separates_mode_switches:
  "(\<forall>k<length es.
       current_mode (state_before s es (Suc k)) = fst (run_detect s es) ! k
     \<and> last_mode_switch (state_before s es (Suc k)) =
         (if switches_at s es k then sig_stamp (es ! k)
          else last_mode_switch (state_before s es k))
     \<and> (sig_now (es ! k) - last_mode_switch (state_before s es k) < mode_switch_cooldown s
          \<longrightarrow> fst (run_detect s es) ! k = current_mode (state_before s es k)))
   \<and> (\<forall>i j. i < j \<and> j < length es \<and> switches_at s es i \<and> switches_at s es j
            \<and> (\<forall>k. i < k \<and> k < j \<longrightarrow> \<not> switches_at s es k)
          \<longrightarrow> mode_switch_cooldown s \<le> sig_now (es ! j) - sig_stamp (es ! i))
   \<and> (\<forall>j<length es. switches_at s es j \<and> (\<forall>k<j. \<not> switches_at s es k)
          \<longrightarrow> mode_switch_cooldown s \<le> sig_now (es ! j) - last_mode_switch s)
   \<and> ((\<forall>e\<in>set es. sig_now e - last_mode_switch s < mode_switch_cooldown s)
          \<longrightarrow> fst (run_detect s es) = replicate (length es) (current_mode s)
            \<and> current_mode (snd (run_detect s es)) = current_mode s
            \<and> last_mode_switch (snd (run_detect s es)) = last_mode_switch s)
   \<and> state_before s es 0 = s"
proof -
  have calls: "\<forall>k<length es.
       current_mode (state_before s es (Suc k)) = fst (run_detect s es) ! k
     \<and> last_mode_switch (state_before s es (Suc k)) =
         (if switches_at s es k then sig_stamp (es ! k)
          else last_mode_switch (state_before s es k))
     \<and> (sig_now (es ! k) - last_mode_switch (state_before s es k) < mode_switch_cooldown s
          \<longrightarrow> fst (run_detect s es) ! k = current_mode (state_before s es k))"
  proof (intro allI impI conjI)
    fix k assume k: "k < length es"
    show "current_mode (state_before s es (Suc k)) = fst (run_detect s es) ! k"
      using k by (rule call_facts(1))
    show "last_mode_switch (state_before s es (Suc k)) =
         (if switches_at s es k then sig_stamp (es ! k)
          else last_mode_switch (state_before s es k))"
      using k by (rule call_facts(2))
    show "fst (run_detect s es) ! k = current_mode (state_before s es k)"
      if "sig_now (es ! k) - last_mode_switch (state_before s es k) < mode_switch_cooldown s"
    proof (rule ccontr)
      assume "fst (run_detect s es) ! k \<noteq> current_mode (state_before s es k)"
      then have "switches_at s es k" by (simp add: switches_at_def)
      from call_facts(3)[OF k this] that show False by simp
    qed
  qed
  have pairs: "\<forall>i j. i < j \<and> j < length es \<and> switches_at s es i \<and> switches_at s es j
            \<and> (\<forall>k. i < k \<and> k < j \<longrightarrow> \<not> switches_at s es k)
          \<longrightarrow> mode_switch_cooldown s \<le> sig_now (es ! j) - sig_stamp (es ! i)"
    using switches_apart by blast
  have first: "\<forall>j<length es. switches_at s es j \<and> (\<forall>k<j. \<not> switches_at s es k)
          \<longrightarrow> mode_switch_cooldown s \<le> sig_now (es ! j) - last_mode_switch s"
    using first_switch_after_cooldown by blast
  have window: "(\<forall>e\<in>set es. sig_now e - last_mode_switch s < mode_switch_cooldown s)
          \<longrightarrow> fst (run_detect s es) = replicate (length es) (current_mode s)
            \<and> current_mode (snd (run_detect s es)) = current_mode s
            \<and> last_mode_switch (snd (run_detect s es)) = last_mode_switch s"
    using run_detect_in_cooldown by blast
  from calls pairs first window state_before_0[of s es] show ?thesis by (intro conjI)
qed

theorem cooldown_separates_mode_switches_witness:
  "switches_at (ModeManager_init 0)
     [\<lparr> sig_audio = 0, sig_motion = 0.5, sig_hands = True, sig_now = 1.0, sig_stamp = 1.0 \<rparr>,
      \<lparr> sig_audio = 1, sig_motion = 0, sig_hands = False, sig_now = 1.9, sig_stamp = 1.9 \<rparr>,
      \<lparr> sig_audio = 1, sig_motion = 0, sig_hands = False, sig_now = 2.0, sig_stamp = 2.0 \<rparr>] 0
   \<and> \<not> switches_at (ModeManager_init 0)
     [\<lparr> sig_audio = 0, sig_motion = 0.5, sig_hands = True, sig_now = 1.0, sig_stamp = 1.0 \<rparr>,
      \<lparr> sig_audio = 1, sig_motion = 0, sig_hands = False, sig_now = 1.9, sig_stamp = 1.9 \<rparr>,
      \<lparr> sig_audio = 1, sig_motion = 0, sig_hands = False, sig_now = 2.0, sig_stamp = 2.0 \<rparr>] 1
   \<and> switches_at (ModeManager_init 0)
     [\<lparr> sig_audio = 0, sig_motion = 0.5, sig_hands = True, sig_now = 1.0, sig_stamp = 1.0 \<rparr>,
      \<lparr> sig_audio = 1, sig_motion = 0, sig_hands = False, sig_now = 1.9, sig_stamp = 1.9 \<rparr>,
      \<lparr> sig_audio = 1, sig_motion = 0, sig_hands = False, sig_now = 2.0, sig_stamp = 2.0 \<rparr>] 2
   \<and> mode_switch_cooldown (ModeManager_init 0) \<le> 2.0 - 1.0
   \<and> last_mode_switch (state_before (ModeManager_init 0)
     [\<lparr> sig_audio = 0, sig_motion = 0.5, sig_hands = True, sig_now = 1.0, sig_stamp = 1.0 \<rparr>,
      \<lparr> sig_audio = 1, sig_motion = 0, sig_hands = False, sig_now = 1.9, sig_stamp = 1.9 \<rparr>,
      \<lparr> sig_audio = 1, sig_motion = 0, sig_hands = False, sig_now = 2.0, sig_stamp = 2.0 \<rparr>] 3) = 2.0"
proof -
  let ?s = "ModeManager_init 0"
  let ?es = "[\<lparr> sig_audio = 0, sig_motion = 0.5, sig_hands = True, sig_now = 1.0, sig_stamp = 1.0 \<rparr>,
      \<lparr> sig_audio = 1, sig_motion = 0, sig_hands = False, sig_now = 1.9, sig_stamp = 1.9 \<rparr>,
      \<lparr> sig_audio = 1, sig_motion = 0, sig_hands = False, sig_now = 2.0, sig_stamp = 2.0 \<rparr>]"
  have sw0: "switches_at ?s ?es 0" and sw1: "\<not> switches_at ?s ?es 1" and sw2: "switches_at ?s ?es 2"
    by (simp_all add: switches_at_def state_before_def ModeManager_init_def detect_event_def
          detect_active_mode_def append_limited_def average_def Let_def)
  note T = cooldown_separates_mode_switches[of ?es ?s]
  from T have pairs: "\<forall>i j. i < j \<and> j < length ?es \<and> switches_at ?s ?es i \<and> switches_at ?s ?es j
            \<and> (\<forall>k. i < k \<and> k < j \<longrightarrow> \<not> switches_at ?s ?es k)
          \<longrightarrow> mode_switch_cooldown ?s \<le> sig_now (?es ! j) - sig_stamp (?es ! i)"
    by blast
  have quiet: "\<forall>k. 0 < k \<and> k < 2 \<longrightarrow> \<not> switches_at ?s ?es k"
  proof (intro allI impI)
    fix k :: nat assume "0 < k \<and> k < 2"
    then have "k = 1" by simp
    then show "\<not> switches_at ?s ?es k" using sw1 by simp
  qed
  have apart: "mode_switch_cooldown ?s \<le> sig_now (?es ! 2) - sig_stamp (?es ! 0)"
    using pairs[rule_format, of 0 2] sw0 sw2 quiet by simp
  from T have calls: "\<forall>k<length ?es. last_mode_switch (state_before ?s ?es (Suc k)) =
      (if switches_at ?s ?es k then sig_stamp (?es ! k)
       else last_mode_switch (state_before ?s ?es k))"
    by blast
  have "2 < length ?es" by simp
  from calls[rule_format, OF this]
  have "last_mode_switch (state_before ?s ?es (Suc 2)) = sig_stamp (?es ! 2)"
    using sw2 by (simp only: if_True)
  then have stamp: "last_mode_switch (state_before ?s ?es 3) = 2.0"
    by (simp add: numeral_3_eq_3)
  from sw0 sw1 sw2 apart stamp show ?thesis by simp
qed

text \<open>
  C1 as stated fails: two successive calls, a tenth of a second apart, return different
  modes (the later one is the first call after the cooldown has ended). The manager is built at time 0; the call at 1.0 switches to sign mode; the call
  at 1.9 is inside the cooldown and returns sign mode; the call at 2.0 is outside it and
  switches to speech mode.
\<close>

theorem successive_modes_differ_within_cooldown:
  "fst (run_detect (ModeManager_init 0)
        [\<lparr> sig_audio = 0, sig_motion = 0.5, sig_hands = True, sig_now = 1.0, sig_stamp = 1.0 \<rparr>,
         \<lparr> sig_audio = 1, sig_motion = 0, sig_hands = False, sig_now = 1.9, sig_stamp = 1.9 \<rparr>,
         \<lparr> sig_audio = 1, sig_motion = 0, sig_hands = False, sig_now = 2.0, sig_stamp = 2.0 \<rparr>])
     = [SIGN_TO_SPEECH, SIGN_TO_SPEECH, SPEECH_TO_SIGN]
   \<and> (2.0 :: real) - 1.9 < mode_switch_cooldown (ModeManager_init 0)"
  by (simp add: ModeManager_init_def detect_event_def detect_active_mode_def
        append_limited_def average_def Let_def)

text \<open>
  C8. Once the cooldown has elapsed, the call first puts the new samples into the rolling
  buffers (dropping the oldest sample of a buffer that would exceed \<open>buffer_size\<close>) and
  compares the arithmetic means of the buffered samples with the thresholds. From
  \<open>AUTO_DETECT\<close>: speech mode if the mean audio level exceeds the audio threshold, else
  sign mode if hands are present and the mean motion level exceeds the motion threshold,
  else no change. From \<open>SPEECH_TO_SIGN\<close>: sign mode only if the mean audio level is below
  half the audio threshold and hands are present and the mean motion level exceeds the
  motion threshold. From \<open>SIGN_TO_SPEECH\<close>: speech mode if the mean audio level exceeds
  the audio threshold. The returned mode becomes the current mode, and the time of the
  last switch is stamped exactly when the mode changed.
\<close>

theorem transition_rules:
  assumes "mode_switch_cooldown s \<le> now - last_mode_switch s"
  shows
    "let audio_buffer = (if length (audio_levels s) + 1 > buffer_size s
                         then tl (audio_levels s @ [a]) else audio_levels s @ [a]);
         motion_buffer = (if length (motion_levels s) + 1 > buffer_size s
                          then tl (motion_levels s @ [m]) else motion_levels s @ [m]);
         avg_audio = (if audio_buffer = [] then 0
                      else sum_list audio_buffer / real (length audio_buffer));
         avg_motion = (if motion_buffer = [] then 0
                       else sum_list motion_buffer / real (length motion_buffer));
         (mode, s') = detect_active_mode s a m h now now'
     in audio_levels s' = audio_buffer
      \<and> motion_levels s' = motion_buffer
      \<and> (current_mode s = AUTO_DETECT \<longrightarrow>
           mode = (if avg_audio > audio_level_threshold s then SPEECH_TO_SIGN
                   else if h \<and> avg_motion > motion_level_threshold s then SIGN_TO_SPEECH
                   else AUTO_DETECT))
      \<and> (current_mode s = SPEECH_TO_SIGN \<longrightarrow>
           mode = (if avg_audio < audio_level_threshold s / 2 \<and> h
                        \<and> avg_motion > motion_level_threshold s
                   then SIGN_TO_SPEECH else SPEECH_TO_SIGN))
      \<and> (current_mode s = SIGN_TO_SPEECH \<longrightarrow>
           mode = (if avg_audio > audio_level_threshold s then SPEECH_TO_SIGN
                   else SIGN_TO_SPEECH))
      \<and> current_mode s' = mode
      \<and> last_mode_switch s' = (if mode = current_mode s then last_mode_switch s else now')"
  using assms
  by (cases "current_mode s")
     (simp_all add: detect_active_mode_def append_limited_def average_def Let_def)

theorem transition_rules_witness:
  "mode_switch_cooldown ((ModeManager_init 0)\<lparr> audio_levels := [0], motion_levels := [0] \<rparr>)
     \<le> 1 - last_mode_switch ((ModeManager_init 0)\<lparr> audio_levels := [0], motion_levels := [0] \<rparr>)
   \<and> fst (detect_active_mode ((ModeManager_init 0)\<lparr> audio_levels := [0], motion_levels := [0] \<rparr>)
        0.15 0 False 1 1.01) = AUTO_DETECT
   \<and> audio_levels (snd (detect_active_mode
        ((ModeManager_init 0)\<lparr> audio_levels := [0], motion_levels := [0] \<rparr>) 0.15 0 False 1 1.01))
     = [0, 0.15]
   \<and> fst (detect_active_mode ((ModeManager_init 0)\<lparr> audio_levels := [0.2], motion_levels := [0] \<rparr>)
        0.15 0 False 1 1.01) = SPEECH_TO_SIGN
   \<and> last_mode_switch (snd (detect_active_mode
        ((ModeManager_init 0)\<lparr> audio_levels := [0.2], motion_levels := [0] \<rparr>) 0.15 0 False 1 1.01)) = 1.01"
  using transition_rules
          [of "(ModeManager_init 0)\<lparr> audio_levels := [0], motion_levels := [0] \<rparr>" 1 "0.15" 0 False "1.01"]
        transition_rules
          [of "(ModeManager_init 0)\<lparr> audio_levels := [0.2], motion_levels := [0] \<rparr>" 1 "0.15" 0 False "1.01"]
  by (simp add: ModeManager_init_def Let_def split: prod.splits)

text \<open>
  C9. Every call appends the new audio and motion samples and evicts the oldest one once
  a buffer would exceed \<open>buffer_size\<close> (10 by default), before the cooldown is looked at:
  after any sequence of calls, with any clock readings, each buffer holds the last
  \<open>buffer_size\<close> samples of all that were offered, so never more than \<open>buffer_size\<close>; and
  when all the calls fall inside the cooldown the returned modes stay the current mode
  while the buffers, and with them the averages, take in the new samples all the same.
\<close>

theorem rolling_buffers_bounded:
  assumes "length (audio_levels s) \<le> buffer_size s" and "length (motion_levels s) \<le> buffer_size s"
  shows
    "let s' = snd (run_detect s es);
         all_audio = audio_levels s @ map sig_audio es;
         all_motion = motion_levels s @ map sig_motion es
     in audio_levels s' = drop (length all_audio - buffer_size s) all_audio
      \<and> motion_levels s' = drop (length all_motion - buffer_size s) all_motion
      \<and> length (audio_levels s') \<le> buffer_size s
      \<and> length (motion_levels s') \<le> buffer_size s
      \<and> ((\<forall>e\<in>set es. sig_now e - last_mode_switch s < mode_switch_cooldown s) \<longrightarrow>
           fst (run_detect s es) = replicate (length es) (current_mode s))"
proof -
  note B = run_detect_buffers[OF assms, of es]
  have la: "length (audio_levels (snd (run_detect s es))) \<le> buffer_size s"
    using B by simp
  have lm: "length (motion_levels (snd (run_detect s es))) \<le> buffer_size s"
    using B by simp
  show ?thesis
    unfolding Let_def using B la lm run_detect_in_cooldown[of es s] by blast
qed

theorem rolling_buffers_bounded_witness:
  "length (audio_levels ((ModeManager_init 0)\<lparr> audio_levels := [1, 2, 3, 4, 5, 6, 7, 8, 9, 10] \<rparr>))
     \<le> buffer_size ((ModeManager_init 0)\<lparr> audio_levels := [1, 2, 3, 4, 5, 6, 7, 8, 9, 10] \<rparr>)
   \<and> audio_levels (snd (run_detect ((ModeManager_init 0)\<lparr> audio_levels := [1, 2, 3, 4, 5, 6, 7, 8, 9, 10] \<rparr>)
        [\<lparr> sig_audio = 11, sig_motion = 0.5, sig_hands = True, sig_now = 0.5, sig_stamp = 0.5 \<rparr>]))
     = [2, 3, 4, 5, 6, 7, 8, 9, 10, 11]
   \<and> fst (run_detect ((ModeManager_init 0)\<lparr> audio_levels := [1, 2, 3, 4, 5, 6, 7, 8, 9, 10] \<rparr>)
        [\<lparr> sig_audio = 11, sig_motion = 0.5, sig_hands = True, sig_now = 0.5, sig_stamp = 0.5 \<rparr>])
     = [AUTO_DETECT]"
  using rolling_buffers_bounded
    [of "(ModeManager_init 0)\<lparr> audio_levels := [1, 2, 3, 4, 5, 6, 7, 8, 9, 10] \<rparr>"
        "[\<lparr> sig_audio = 11, sig_motion = 0.5, sig_hands = True, sig_now = 0.5, sig_stamp = 0.5 \<rparr>]"]
  by (simp add: ModeManager_init_def Let_def)


section \<open>Properties of the performance governor\<close>

lemma py_int_four_fifths:
  "0 \<le> w \<Longrightarrow> py_int (real_of_int w * 0.8) = (4 * w) div 5"
proof -
  assume w: "0 \<le> w"
  have "real_of_int w * 0.8 = real_of_int (4 * w) / real_of_int 5" by simp
  then have "\<lfloor>real_of_int w * 0.8\<rfloor> = (4 * w) div 5"
    by (simp only: floor_divide_of_int_eq)
  moreover have "0 \<le> real_of_int w * 0.8" using w by simp
  ultimately show ?thesis by (simp add: py_int_def)
qed

lemma should_skip_frame_rate:
  "fst (should_skip_frame s now) =
     (enable_frame_skipping s \<and>
      (if now - last_frame_time s > 0 then 1 / (now - last_frame_time s) else 0) > target_fps s)"
  by (simp add: should_skip_frame_def Let_def)

lemma should_skip_frame_state:
  "snd (should_skip_frame s now) =
     (if enable_frame_skipping s \<and> \<not> fst (should_skip_frame s now)
      then s\<lparr> last_frame_time := now \<rparr> else s)"
  by (simp add: should_skip_frame_def Let_def)

lemma rate_exceeds_iff:
  fixes d f :: real
  assumes "0 < f"
  shows "((if d > 0 then 1 / d else 0) > f) = (0 < d \<and> d < 1 / f)"
  using assms by (auto simp: field_simps)

lemma governor_step_floors:
  assumes "320 \<le> fst (max_resolution s)" "240 \<le> snd (max_resolution s)" "8000 \<le> audio_sample_rate s"
  shows "320 \<le> fst (max_resolution (governor_step s c))
       \<and> 240 \<le> snd (max_resolution (governor_step s c))
       \<and> 8000 \<le> audio_sample_rate (governor_step s c)"
  using assms
  by (cases c)
     (auto simp: measure_latency_def should_skip_frame_def auto_adjust_quality_def Let_def
           split: option.splits)

lemma governor_run_floors:
  assumes "320 \<le> fst (max_resolution s)" "240 \<le> snd (max_resolution s)" "8000 \<le> audio_sample_rate s"
  shows "320 \<le> fst (max_resolution (governor_run s calls))
       \<and> 240 \<le> snd (max_resolution (governor_run s calls))
       \<and> 8000 \<le> audio_sample_rate (governor_run s calls)"
  using assms unfolding governor_run_def
proof (induction calls arbitrary: s)
  case Nil
  then show ?case by simp
next
  case (Cons c calls)
  from governor_step_floors[OF Cons.prems, of c] Cons.IH[of "governor_step s c"]
  show ?case by simp
qed

lemma auto_adjust_resolution:
  "max_resolution (auto_adjust_quality s) =
     (if stats_avg (get_performance_stats s) ''video_latency'' > 100
      then (max 320 (py_int (real_of_int (fst (max_resolution s)) * 0.8)),
            max 240 (py_int (real_of_int (snd (max_resolution s)) * 0.8)))
      else max_resolution s)"
  by (simp add: auto_adjust_quality_def Let_def)

lemma auto_adjust_sample_rate:
  "audio_sample_rate (auto_adjust_quality s) =
     (if stats_avg (get_performance_stats s) ''audio_latency'' > 50
      then max 8000 (audio_sample_rate s - 2000)
      else audio_sample_rate s)"
  by (simp add: auto_adjust_quality_def Let_def)

lemma window_mean:
  "stats_avg (get_performance_stats s) name =
     (case metrics s name of None \<Rightarrow> 0
      | Some w \<Rightarrow> if w = [] then 0 else sum_list w / real (length w))"
  by (simp add: stats_avg_def get_performance_stats_def split: option.splits)

text \<open>
  C3. With a positive target rate, \<open>should_skip_frame\<close> returns true if and only if frame
  skipping is enabled and the instantaneous rate, computed from the time since the last
  accepted frame, strictly exceeds \<open>target_fps\<close>; that is, if and only if the call comes
  after the last accepted frame and less than \<open>1 / target_fps\<close> seconds after it. A call
  exactly \<open>1 / target_fps\<close> seconds after it returns false. The stored time of the last
  frame is set to the time of the call exactly when skipping is enabled and the call
  returns false; a skipped frame leaves it as it was.
\<close>

theorem should_skip_frame_strict:
  assumes "0 < target_fps s"
  shows
    "fst (should_skip_frame s now) =
       (enable_frame_skipping s \<and>
        (if now - last_frame_time s > 0 then 1 / (now - last_frame_time s) else 0) > target_fps s)
     \<and> fst (should_skip_frame s now) =
       (enable_frame_skipping s \<and> 0 < now - last_frame_time s
          \<and> now - last_frame_time s < 1 / target_fps s)
     \<and> (now - last_frame_time s = 1 / target_fps s \<longrightarrow> \<not> fst (should_skip_frame s now))
     \<and> snd (should_skip_frame s now) =
       (if enable_frame_skipping s \<and> \<not> fst (should_skip_frame s now)
        then s\<lparr> last_frame_time := now \<rparr> else s)"
proof -
  have rate: "fst (should_skip_frame s now) =
       (enable_frame_skipping s \<and>
        (if now - last_frame_time s > 0 then 1 / (now - last_frame_time s) else 0) > target_fps s)"
    by (rule should_skip_frame_rate)
  have window: "fst (should_skip_frame s now) =
       (enable_frame_skipping s \<and> 0 < now - last_frame_time s
          \<and> now - last_frame_time s < 1 / target_fps s)"
    unfolding rate by (simp only: rate_exceeds_iff[OF assms])
  have boundary: "now - last_frame_time s = 1 / target_fps s \<longrightarrow> \<not> fst (should_skip_frame s now)"
    unfolding window by simp
  from rate window boundary should_skip_frame_state[of s now] show ?thesis
    by (intro conjI)
qed

theorem should_skip_frame_strict_witness:
  "0 < target_fps (PerformanceOptimizer_init 0 :: unit optimizer)
   \<and> \<not> fst (should_skip_frame (PerformanceOptimizer_init 0 :: unit optimizer) (1 / 15))
   \<and> last_frame_time (snd (should_skip_frame (PerformanceOptimizer_init 0 :: unit optimizer) (1 / 15))) = 1 / 15
   \<and> fst (should_skip_frame (PerformanceOptimizer_init 0 :: unit optimizer) 0.05)
   \<and> last_frame_time (snd (should_skip_frame (PerformanceOptimizer_init 0 :: unit optimizer) 0.05)) = 0"
  using should_skip_frame_strict [of "PerformanceOptimizer_init 0 :: unit optimizer" "1 / 15"]
        should_skip_frame_strict [of "PerformanceOptimizer_init 0 :: unit optimizer" "0.05"]
  by (simp add: PerformanceOptimizer_init_def)

text \<open>
  What \<open>auto_adjust_quality\<close> does on the metrics it reads. It takes the means of the
  samples recorded under the metric names \<open>video_latency\<close> and \<open>audio_latency\<close>, zero for
  an empty window. When the \<open>video_latency\<close> mean exceeds 100 ms, each side of the
  resolution cap becomes four fifths of itself, rounded down, and not less than 320 by
  240; otherwise the cap stays. When the \<open>audio_latency\<close> mean exceeds 50 ms, the sample
  rate drops by 2000 Hz, and not below 8000 Hz; otherwise it stays. From a state at or
  above these floors, the cap never falls below 320 by 240 and the rate never below
  8000 Hz after any sequence of calls of the governor.
\<close>

theorem auto_adjust_quality_floors:
  assumes "320 \<le> fst (max_resolution s)" and "240 \<le> snd (max_resolution s)"
    and "8000 \<le> audio_sample_rate s"
  shows
    "stats_avg (get_performance_stats s) name =
       (case metrics s name of None \<Rightarrow> 0
        | Some w \<Rightarrow> if w = [] then 0 else sum_list w / real (length w))
     \<and> max_resolution (auto_adjust_quality s) =
       (if stats_avg (get_performance_stats s) ''video_latency'' > 100
        then (max 320 (4 * fst (max_resolution s) div 5), max 240 (4 * snd (max_resolution s) div 5))
        else max_resolution s)
     \<and> audio_sample_rate (auto_adjust_quality s) =
       (if stats_avg (get_performance_stats s) ''audio_latency'' > 50
        then max 8000 (audio_sample_rate s - 2000)
        else audio_sample_rate s)
     \<and> (\<forall>calls. 320 \<le> fst (max_resolution (governor_run s calls))
              \<and> 240 \<le> snd (max_resolution (governor_run s calls))
              \<and> 8000 \<le> audio_sample_rate (governor_run s calls))"
proof -
  have w: "0 \<le> fst (max_resolution s)" and h: "0 \<le> snd (max_resolution s)"
    using assms by simp_all
  have res: "max_resolution (auto_adjust_quality s) =
       (if stats_avg (get_performance_stats s) ''video_latency'' > 100
        then (max 320 (4 * fst (max_resolution s) div 5), max 240 (4 * snd (max_resolution s) div 5))
        else max_resolution s)"
    by (simp only: auto_adjust_resolution py_int_four_fifths[OF w] py_int_four_fifths[OF h])
  have run: "\<forall>calls. 320 \<le> fst (max_resolution (governor_run s calls))
              \<and> 240 \<le> snd (max_resolution (governor_run s calls))
              \<and> 8000 \<le> audio_sample_rate (governor_run s calls)"
    using governor_run_floors[OF assms] by blast
  from window_mean[of s name] res auto_adjust_sample_rate[of s] run show ?thesis
    by (intro conjI)
qed

theorem auto_adjust_quality_floors_witness:
  "320 \<le> fst (max_resolution (snd (measure_latency (snd (measure_latency
        (PerformanceOptimizer_init 0 :: unit optimizer) 0 ''video_latency'' 0.2)) 0 ''audio_latency'' 0.08)))
   \<and> max_resolution (auto_adjust_quality (snd (measure_latency (snd (measure_latency
        (PerformanceOptimizer_init 0 :: unit optimizer) 0 ''video_latency'' 0.2)) 0 ''audio_latency'' 0.08)))
      = (512, 384)
   \<and> audio_sample_rate (auto_adjust_quality (snd (measure_latency (snd (measure_latency
        (PerformanceOptimizer_init 0 :: unit optimizer) 0 ''video_latency'' 0.2)) 0 ''audio_latency'' 0.08)))
      = 14000"
  using auto_adjust_quality_floors [of "snd (measure_latency (snd (measure_latency
        (PerformanceOptimizer_init 0 :: unit optimizer) 0 ''video_latency'' 0.2)) 0 ''audio_latency'' 0.08)"
        "''video_latency''"]
  by (simp add: measure_latency_def PerformanceOptimizer_init_def Let_def metric_names_def
        deque_append_def stats_avg_def get_performance_stats_def)

text \<open>
  C4. The claim: whenever the recorded mean latency of video processing exceeds 100 ms, a
  call of \<open>auto_adjust_quality\<close> shrinks the resolution cap by 20%, and whenever the
  recorded mean latency of audio processing exceeds 50 ms it lowers the sample rate by
  2000 Hz. The code at such an input: \<open>optimize_video_frame\<close> and \<open>optimize_audio_chunk\<close>
  record their latencies under \<open>video_processing_time\<close> and \<open>audio_processing_time\<close>; with
  a recorded mean of 200 ms for the one and 80 ms for the other, \<open>auto_adjust_quality\<close>
  leaves the cap at 640 by 480 and the rate at 16000 Hz, since it reads the metrics
  \<open>video_latency\<close> and \<open>audio_latency\<close>, under which nothing is recorded.
\<close>

theorem processing_time_does_not_adjust_quality:
  "stats_avg (get_performance_stats (snd (measure_latency (snd (measure_latency
        (PerformanceOptimizer_init 0 :: unit optimizer) 0 ''video_processing_time'' 0.2))
        0 ''audio_processing_time'' 0.08))) ''video_processing_time'' = 200
   \<and> stats_avg (get_performance_stats (snd (measure_latency (snd (measure_latency
        (PerformanceOptimizer_init 0 :: unit optimizer) 0 ''video_processing_time'' 0.2))
        0 ''audio_processing_time'' 0.08))) ''audio_processing_time'' = 80
   \<and> max_resolution (auto_adjust_quality (snd (measure_latency (snd (measure_latency
        (PerformanceOptimizer_init 0 :: unit optimizer) 0 ''video_processing_time'' 0.2))
        0 ''audio_processing_time'' 0.08))) = (640, 480)
   \<and> audio_sample_rate (auto_adjust_quality (snd (measure_latency (snd (measure_latency
        (PerformanceOptimizer_init 0 :: unit optimizer) 0 ''video_processing_time'' 0.2))
        0 ''audio_processing_time'' 0.08))) = 16000"
  by (simp add: auto_adjust_quality_def measure_latency_def PerformanceOptimizer_init_def Let_def
        metric_names_def deque_append_def stats_avg_def get_performance_stats_def)

subsection \<open>The memoised gesture lookup\<close>

lemma map_of_filter_other:
  "k \<noteq> k' \<Longrightarrow> map_of (filter (\<lambda>e. fst e \<noteq> k') xs) k = map_of xs k"
  by (induction xs) auto

lemma pos_filter_other:
  "k \<noteq> k' \<Longrightarrow> map_of xs k = Some r \<Longrightarrow>
   length (takeWhile (\<lambda>e. fst e \<noteq> k) (filter (\<lambda>e. fst e \<noteq> k') xs))
     \<le> length (takeWhile (\<lambda>e. fst e \<noteq> k) xs)"
  by (induction xs) (auto split: if_splits)

lemma length_filter_present:
  "map_of xs k' = Some r' \<Longrightarrow> length (filter (\<lambda>e. fst e \<noteq> k') xs) < length xs"
proof -
  assume "map_of xs k' = Some r'"
  then have "(k', r') \<in> set xs" by (rule map_of_SomeD)
  then show ?thesis by (rule length_filter_less) simp
qed

lemma map_of_butlast_keep:
  "map_of xs k = Some r \<Longrightarrow> Suc (length (takeWhile (\<lambda>e. fst e \<noteq> k) xs)) < length xs \<Longrightarrow>
   map_of (butlast xs) k = Some r
   \<and> length (takeWhile (\<lambda>e. fst e \<noteq> k) (butlast xs)) = length (takeWhile (\<lambda>e. fst e \<noteq> k) xs)"
  by (induction xs) (auto split: if_splits)

lemma get_keeps_entry:
  assumes "map_of (lru_memo s) k = Some r"
    and "length (takeWhile (\<lambda>e. fst e \<noteq> k) (lru_memo s)) \<le> j"
    and "length (lru_memo s) \<le> 128"
    and "k' \<noteq> k" and "j < 127"
  shows "map_of (lru_memo (snd (get_cached_gesture s k'))) k = Some r
       \<and> length (takeWhile (\<lambda>e. fst e \<noteq> k) (lru_memo (snd (get_cached_gesture s k')))) \<le> Suc j
       \<and> length (lru_memo (snd (get_cached_gesture s k'))) \<le> 128"
proof (cases "map_of (lru_memo s) k'")
  case (Some r')
  have neq: "k \<noteq> k'" using assms(4) by simp
  have memo: "lru_memo (snd (get_cached_gesture s k')) =
      (k', r') # filter (\<lambda>e. fst e \<noteq> k') (lru_memo s)"
    by (simp add: get_cached_gesture_def Some)
  have a: "map_of (filter (\<lambda>e. fst e \<noteq> k') (lru_memo s)) k = Some r"
    by (simp only: map_of_filter_other[OF neq] assms(1))
  have b: "length (takeWhile (\<lambda>e. fst e \<noteq> k) (filter (\<lambda>e. fst e \<noteq> k') (lru_memo s))) \<le> j"
    using pos_filter_other[OF neq assms(1)] assms(2) by simp
  have c: "length (filter (\<lambda>e. fst e \<noteq> k') (lru_memo s)) < length (lru_memo s)"
    using Some by (rule length_filter_present)
  show ?thesis unfolding memo using a b c assms(3,4) by simp
next
  case None
  let ?memo = "(k', map_of (gesture_cache s) k') # lru_memo s"
  have memo: "lru_memo (snd (get_cached_gesture s k')) =
      (if length ?memo > 128 then butlast ?memo else ?memo)"
    by (simp add: get_cached_gesture_def None Let_def)
  have a: "map_of ?memo k = Some r" using assms(1,4) by simp
  have b: "length (takeWhile (\<lambda>e. fst e \<noteq> k) ?memo) = Suc (length (takeWhile (\<lambda>e. fst e \<noteq> k) (lru_memo s)))"
    using assms(4) by simp
  show ?thesis
  proof (cases "length ?memo > 128")
    case True
    then have "Suc (length (takeWhile (\<lambda>e. fst e \<noteq> k) ?memo)) < length ?memo"
      using b assms(2,5) by simp
    from map_of_butlast_keep[OF a this] have
      "map_of (butlast ?memo) k = Some r"
      "length (takeWhile (\<lambda>e. fst e \<noteq> k) (butlast ?memo)) = length (takeWhile (\<lambda>e. fst e \<noteq> k) ?memo)"
      by simp_all
    moreover have "length (butlast ?memo) \<le> 128" using assms(3) by simp
    ultimately show ?thesis unfolding memo using True b assms(2) by simp
  next
    case False
    then show ?thesis unfolding memo using a b assms(2) by simp
  qed
qed

lemma get_same_key:
  assumes "map_of (lru_memo s) k = Some r" and "length (lru_memo s) \<le> 128"
  shows "fst (get_cached_gesture s k) = r
       \<and> map_of (lru_memo (snd (get_cached_gesture s k))) k = Some r
       \<and> length (takeWhile (\<lambda>e. fst e \<noteq> k) (lru_memo (snd (get_cached_gesture s k)))) = 0
       \<and> length (lru_memo (snd (get_cached_gesture s k))) \<le> 128"
proof -
  have "length (filter (\<lambda>e. fst e \<noteq> k) (lru_memo s)) < length (lru_memo s)"
    using assms(1) by (rule length_filter_present)
  then show ?thesis using assms by (simp add: get_cached_gesture_def)
qed

lemma get_first_time:
  assumes "length (lru_memo s) \<le> 128"
  shows "map_of (lru_memo (snd (get_cached_gesture s k))) k = Some (fst (get_cached_gesture s k))
       \<and> length (takeWhile (\<lambda>e. fst e \<noteq> k) (lru_memo (snd (get_cached_gesture s k)))) = 0
       \<and> length (lru_memo (snd (get_cached_gesture s k))) \<le> 128"
proof (cases "map_of (lru_memo s) k")
  case (Some r)
  from get_same_key[OF Some assms] show ?thesis by simp
next
  case None
  show ?thesis
  proof (cases "lru_memo s")
    case Nil
    then show ?thesis using None by (simp add: get_cached_gesture_def Let_def)
  next
    case (Cons e es)
    then show ?thesis using None assms
      by (simp add: get_cached_gesture_def Let_def)
  qed
qed

lemma cache_gesture_memo: "lru_memo (cache_gesture s k d) = lru_memo s"
  by (simp add: cache_gesture_def Let_def)

lemma cache_run_keeps_entry:
  assumes "map_of (lru_memo s) k = Some r"
    and "length (takeWhile (\<lambda>e. fst e \<noteq> k) (lru_memo s)) + other_lookups k calls \<le> 127"
    and "length (lru_memo s) \<le> 128"
  shows "map_of (lru_memo (cache_run s calls)) k = Some r
       \<and> length (lru_memo (cache_run s calls)) \<le> 128"
  using assms unfolding cache_run_def
proof (induction calls arbitrary: s)
  case Nil
  then show ?case by simp
next
  case (Cons c calls)
  show ?case
  proof (cases c)
    case (Store k' d)
    have "map_of (lru_memo (cache_step s c)) k = Some r"
      "length (takeWhile (\<lambda>e. fst e \<noteq> k) (lru_memo (cache_step s c))) + other_lookups k calls \<le> 127"
      "length (lru_memo (cache_step s c)) \<le> 128"
      using Cons.prems Store by (simp_all add: cache_gesture_memo)
    from Cons.IH[OF this] show ?thesis by simp
  next
    case (Lookup k')
    show ?thesis
    proof (cases "k' = k")
      case True
      from get_same_key[OF Cons.prems(1) Cons.prems(3)]
      have "map_of (lru_memo (cache_step s c)) k = Some r"
        "length (takeWhile (\<lambda>e. fst e \<noteq> k) (lru_memo (cache_step s c))) + other_lookups k calls \<le> 127"
        "length (lru_memo (cache_step s c)) \<le> 128"
        using Cons.prems(2) Lookup True by simp_all
      from Cons.IH[OF this] show ?thesis by simp
    next
      case False
      let ?j = "length (takeWhile (\<lambda>e. fst e \<noteq> k) (lru_memo s))"
      have j: "?j < 127" and rest: "Suc ?j + other_lookups k calls \<le> 127"
        using Cons.prems(2) Lookup False by simp_all
      from get_keeps_entry[OF Cons.prems(1) le_refl Cons.prems(3) False j]
      have "map_of (lru_memo (cache_step s c)) k = Some r"
        "length (takeWhile (\<lambda>e. fst e \<noteq> k) (lru_memo (cache_step s c))) + other_lookups k calls \<le> 127"
        "length (lru_memo (cache_step s c)) \<le> 128"
        using rest Lookup by simp_all
      from Cons.IH[OF this] show ?thesis by simp
    qed
  qed
qed

text \<open>
  C10. \<open>get_cached_gesture\<close> is memoised with capacity 128. Once it has been called for a
  key, later calls with that key return the result of that first call, whatever
  \<open>cache_gesture\<close> has stored since, for that key or any other, as long as the entry has
  not been evicted from the memo table: at most 127 lookups of other keys in between
  cannot evict it. In particular a lookup that returned \<open>None\<close> before the gesture was
  cached keeps returning \<open>None\<close>.
\<close>

theorem memoised_lookup_is_sticky:
  assumes "length (lru_memo s) \<le> 128" and "other_lookups k calls \<le> 127"
  shows "fst (get_cached_gesture (cache_run (snd (get_cached_gesture s k)) calls) k)
       = fst (get_cached_gesture s k)"
proof -
  let ?r = "fst (get_cached_gesture s k)"
  let ?s1 = "snd (get_cached_gesture s k)"
  from get_first_time[OF assms(1), of k]
  have e: "map_of (lru_memo ?s1) k = Some ?r"
    and p: "length (takeWhile (\<lambda>e. fst e \<noteq> k) (lru_memo ?s1)) = 0"
    and l: "length (lru_memo ?s1) \<le> 128"
    by simp_all
  have "length (takeWhile (\<lambda>e. fst e \<noteq> k) (lru_memo ?s1)) + other_lookups k calls \<le> 127"
    using p assms(2) by simp
  from cache_run_keeps_entry[OF e this l]
  have "map_of (lru_memo (cache_run ?s1 calls)) k = Some ?r"
    and "length (lru_memo (cache_run ?s1 calls)) \<le> 128"
    by simp_all
  from get_same_key[OF this] show ?thesis by simp
qed

theorem memoised_lookup_is_sticky_witness:
  "length (lru_memo (PerformanceOptimizer_init 0 :: nat optimizer)) \<le> 128
   \<and> other_lookups ''wave'' [Store ''wave'' (7::nat), Lookup ''point'', Store ''wave'' 8] \<le> 127
   \<and> map_of (gesture_cache (cache_run (snd (get_cached_gesture (PerformanceOptimizer_init 0) ''wave''))
        [Store ''wave'' (7::nat), Lookup ''point'', Store ''wave'' 8])) ''wave'' = Some 8
   \<and> fst (get_cached_gesture (cache_run (snd (get_cached_gesture (PerformanceOptimizer_init 0) ''wave''))
        [Store ''wave'' (7::nat), Lookup ''point'', Store ''wave'' 8]) ''wave'') = None"
proof -
  have first: "fst (get_cached_gesture (PerformanceOptimizer_init 0 :: nat optimizer) ''wave'') = None"
    by (simp add: get_cached_gesture_def PerformanceOptimizer_init_def Let_def)
  have stored: "map_of (gesture_cache (cache_run (snd (get_cached_gesture (PerformanceOptimizer_init 0) ''wave''))
        [Store ''wave'' (7::nat), Lookup ''point'', Store ''wave'' 8])) ''wave'' = Some 8"
    by (simp add: cache_run_def get_cached_gesture_def cache_gesture_def
          PerformanceOptimizer_init_def Let_def)
  have memo: "length (lru_memo (PerformanceOptimizer_init 0 :: nat optimizer)) \<le> 128"
    by (simp add: PerformanceOptimizer_init_def)
  have others: "other_lookups ''wave'' [Store ''wave'' (7::nat), Lookup ''point'', Store ''wave'' 8] \<le> 127"
    by simp
  from memoised_lookup_is_sticky[OF memo others] first stored memo others
  show ?thesis by simp
qed

section \<open>Properties of the fusion\<close>

lemma argmax_loop_stay:
  "\<forall>x\<in>set xs. x \<le> m \<Longrightarrow> argmax_loop (Finite m) b i (map Finite xs) = b"
  by (induction xs arbitrary: i) simp_all

lemma argmax_loop_first_max:
  assumes "k < length xs" and "\<forall>j<length xs. xs ! j \<le> xs ! k" and "\<forall>j<k. xs ! j < xs ! k"
    and "m < xs ! k"
  shows "argmax_loop (Finite m) b i (map Finite xs) = i + k"
  using assms
proof (induction xs arbitrary: m b i k)
  case Nil
  then show ?case by simp
next
  case (Cons y ys)
  show ?case
  proof (cases k)
    case 0
    then have y: "m < y" using Cons.prems(4) by simp
    have "\<forall>x\<in>set ys. x \<le> y"
    proof
      fix x assume "x \<in> set ys"
      then obtain j where "j < length ys" "ys ! j = x" by (auto simp: in_set_conv_nth)
      then show "x \<le> y" using Cons.prems(2) 0 by (auto dest: spec[of _ "Suc j"])
    qed
    then have "argmax_loop (Finite y) i (Suc i) (map Finite ys) = i" by (rule argmax_loop_stay)
    then show ?thesis using y 0 by simp
  next
    case (Suc k')
    have k': "k' < length ys" using Cons.prems(1) Suc by simp
    have le: "\<forall>j<length ys. ys ! j \<le> ys ! k'"
      using Cons.prems(2) Suc by (auto dest: spec[of _ "Suc j" for j])
    have lt: "\<forall>j<k'. ys ! j < ys ! k'"
      using Cons.prems(3) Suc by (auto dest: spec[of _ "Suc j" for j])
    have y: "y < ys ! k'" using Cons.prems(3) Suc by (auto dest: spec[of _ 0])
    have m: "m < ys ! k'" using Cons.prems(4) Suc by simp
    show ?thesis
    proof (cases "y \<le> m")
      case True
      then show ?thesis using Cons.IH[OF k' le lt m, of b "Suc i"] Suc by simp
    next
      case False
      then show ?thesis using Cons.IH[OF k' le lt y, of i "Suc i"] Suc by simp
    qed
  qed
qed

lemma np_argmax_first_max:
  assumes "k < length xs" and "\<forall>j<length xs. xs ! j \<le> xs ! k" and "\<forall>j<k. xs ! j < xs ! k"
  shows "np_argmax (map Finite xs) = k"
proof (cases xs)
  case Nil
  then show ?thesis using assms(1) by simp
next
  case (Cons y ys)
  show ?thesis
  proof (cases k)
    case 0
    have "\<forall>x\<in>set ys. x \<le> y"
    proof
      fix x assume "x \<in> set ys"
      then obtain j where "j < length ys" "ys ! j = x" by (auto simp: in_set_conv_nth)
      then show "x \<le> y" using assms(2) 0 Cons by (auto dest: spec[of _ "Suc j"])
    qed
    then have "argmax_loop (Finite y) 0 1 (map Finite ys) = 0" by (rule argmax_loop_stay)
    then show ?thesis using 0 Cons by simp
  next
    case (Suc k')
    have k': "k' < length ys" using assms(1) Suc Cons by simp
    have le: "\<forall>j<length ys. ys ! j \<le> ys ! k'"
      using assms(2) Suc Cons by (auto dest: spec[of _ "Suc j" for j])
    have lt: "\<forall>j<k'. ys ! j < ys ! k'"
      using assms(3) Suc Cons by (auto dest: spec[of _ "Suc j" for j])
    have y: "y < ys ! k'" using assms(3) Suc Cons by (auto dest: spec[of _ 0])
    from argmax_loop_first_max[OF k' le lt y, of 0 1] show ?thesis using Suc Cons by simp
  qed
qed

lemma first_max_exists:
  fixes xs :: "real list"
  assumes "xs \<noteq> []"
  shows "\<exists>k<length xs. (\<forall>j<length xs. xs ! j \<le> xs ! k) \<and> (\<forall>j<k. xs ! j < xs ! k)"
proof -
  let ?M = "Max (set xs)"
  have "?M \<in> set xs" using assms by (intro Max_in) simp_all
  then obtain i where i: "i < length xs" "xs ! i = ?M" by (auto simp: in_set_conv_nth)
  define k where "k = (LEAST i. i < length xs \<and> xs ! i = ?M)"
  have k: "k < length xs \<and> xs ! k = ?M"
    unfolding k_def using i by (intro LeastI[of "\<lambda>i. i < length xs \<and> xs ! i = ?M" i]) simp
  have least: "\<And>j. j < k \<Longrightarrow> \<not> (j < length xs \<and> xs ! j = ?M)"
    unfolding k_def by (rule not_less_Least)
  have le: "\<forall>j<length xs. xs ! j \<le> xs ! k"
    using k by (simp add: Max_ge)
  have lt: "\<forall>j<k. xs ! j < xs ! k"
  proof (intro allI impI)
    fix j assume j: "j < k"
    then have jl: "j < length xs" using k by simp
    with least[OF j] have "xs ! j \<noteq> ?M" by simp
    moreover have "xs ! j \<le> ?M" using jl by (simp add: Max_ge)
    ultimately show "xs ! j < xs ! k" using k by simp
  qed
  from k le lt show ?thesis by blast
qed

lemma np_argmax_finite:
  assumes "xs \<noteq> []"
  shows "np_argmax (map Finite xs) < length xs
       \<and> (\<forall>j<length xs. xs ! j \<le> xs ! np_argmax (map Finite xs))
       \<and> (\<forall>j<np_argmax (map Finite xs). xs ! j < xs ! np_argmax (map Finite xs))"
proof -
  from first_max_exists[OF assms] obtain k where k: "k < length xs"
    and le: "\<forall>j<length xs. xs ! j \<le> xs ! k" and lt: "\<forall>j<k. xs ! j < xs ! k"
    by blast
  have "np_argmax (map Finite xs) = k" using k le lt by (rule np_argmax_first_max)
  then show ?thesis using k le lt by simp
qed

lemma single_path:
  assumes "filter success predictions = [p]"
  shows "ensemble_predictions t predictions =
     (if model p = ''i3d''
      then Inr (SingleModel p ''ensemble_single'' [model p],
                t\<lparr> stats := (stats t)\<lparr> stat_i3d_only := stat_i3d_only (stats t) + 1 \<rparr> \<rparr>)
      else if model p = ''tgcn''
      then Inr (SingleModel p ''ensemble_single'' [model p],
                t\<lparr> stats := (stats t)\<lparr> stat_tgcn_only := stat_tgcn_only (stats t) + 1 \<rparr> \<rparr>)
      else Inl (KeyError (model p @ ''_only'')))"
  using assms by (simp add: ensemble_predictions_def Let_def)

lemma np_iadd_same_length:
  "length b = length a \<Longrightarrow> np_iadd a b = Inr (map2 (+) a b)"
  by (simp add: np_iadd_def)

lemma fuse_loop_Some:
  assumes "\<forall>p\<in>set ps. length (probabilities p) = length e"
  shows "fuse_loop ws ps (Some e) results =
     Inr (Some (map (\<lambda>i. e ! i + (\<Sum>p\<leftarrow>ps. weight_of ws (model p) * probabilities p ! i)) [0..<length e]),
          foldl (\<lambda>d p. dict_set d (model p) (model_entry p)) results ps)"
  using assms
proof (induction ps arbitrary: e results)
  case Nil
  then show ?case by (simp add: map_nth)
next
  case (Cons p ps)
  let ?w = "weight_of ws (model p)"
  let ?b = "map (\<lambda>x. x * ?w) (probabilities p)"
  let ?e' = "map2 (+) e ?b"
  have len: "length ?b = length e" using Cons.prems by simp
  have add: "np_iadd e ?b = Inr ?e'" using len by (rule np_iadd_same_length)
  have len': "length ?e' = length e" using len by simp
  have rest: "\<forall>q\<in>set ps. length (probabilities q) = length ?e'"
    using Cons.prems len' by simp
  have nth: "\<And>i. i < length e \<Longrightarrow> ?e' ! i = e ! i + ?w * probabilities p ! i"
    using len by simp
  have vec: "map (\<lambda>i. ?e' ! i + (\<Sum>q\<leftarrow>ps. weight_of ws (model q) * probabilities q ! i)) [0..<length ?e']
           = map (\<lambda>i. e ! i + (\<Sum>q\<leftarrow>p # ps. weight_of ws (model q) * probabilities q ! i)) [0..<length e]"
    unfolding len' by (rule map_cong) (simp_all add: nth)
  show ?case
    by (simp only: fuse_loop.simps Let_def add option.case sum.case Cons.IH[OF rest] vec foldl_Cons)
qed

lemma fuse_loop_None:
  assumes "\<forall>q\<in>set (p # ps). length (probabilities q) = n"
  shows "fuse_loop ws (p # ps) None results =
     Inr (Some (map (\<lambda>i. \<Sum>q\<leftarrow>p # ps. weight_of ws (model q) * probabilities q ! i) [0..<n]),
          foldl (\<lambda>d q. dict_set d (model q) (model_entry q)) results (p # ps))"
proof -
  let ?e = "map (\<lambda>x. x * weight_of ws (model p)) (probabilities p)"
  have len: "length ?e = n" using assms by simp
  have rest: "\<forall>q\<in>set ps. length (probabilities q) = length ?e" using assms by simp
  have vec: "map (\<lambda>i. ?e ! i + (\<Sum>q\<leftarrow>ps. weight_of ws (model q) * probabilities q ! i)) [0..<length ?e]
      = map (\<lambda>i. \<Sum>q\<leftarrow>p # ps. weight_of ws (model q) * probabilities q ! i) [0..<n]"
    unfolding len by (rule map_cong) (simp_all add: assms mult.commute)
  have "fuse_loop ws (p # ps) None results =
      fuse_loop ws ps (Some ?e) (dict_set results (model p) (model_entry p))"
    by (simp add: Let_def)
  then show ?thesis
    by (simp only: fuse_loop_Some[OF rest] vec foldl_Cons)
qed

lemma dict_set_fresh: "k \<notin> fst ` set d \<Longrightarrow> dict_set d k v = d @ [(k, v)]"
  by (induction d) auto

lemma dict_build_distinct:
  assumes "distinct (map f ps)" and "f ` set ps \<inter> fst ` set d = {}"
  shows "foldl (\<lambda>d p. dict_set d (f p) (g p)) d ps = d @ map (\<lambda>p. (f p, g p)) ps"
  using assms
proof (induction ps arbitrary: d)
  case Nil
  then show ?case by simp
next
  case (Cons p ps)
  have fresh: "f p \<notin> fst ` set d" using Cons.prems(2) by auto
  have d': "dict_set d (f p) (g p) = d @ [(f p, g p)]" using fresh by (rule dict_set_fresh)
  have "distinct (map f ps)" using Cons.prems(1) by simp
  moreover have "f ` set ps \<inter> fst ` set (d @ [(f p, g p)]) = {}"
    using Cons.prems by auto
  ultimately have "foldl (\<lambda>d p. dict_set d (f p) (g p)) (d @ [(f p, g p)]) ps
      = (d @ [(f p, g p)]) @ map (\<lambda>p. (f p, g p)) ps"
    by (rule Cons.IH)
  then show ?case by (simp add: d')
qed

lemma remdups_single_iff:
  "(length (remdups xs) = 1) = (xs \<noteq> [] \<and> (\<forall>a\<in>set xs. \<forall>b\<in>set xs. a = b))"
proof -
  have "(length (remdups xs) = 1) = (card (set xs) = 1)"
    by (simp add: length_remdups_card_conv)
  also have "\<dots> = (\<exists>x. set xs = {x})" by (simp add: card_1_singleton_iff)
  also have "\<dots> = (xs \<noteq> [] \<and> (\<forall>a\<in>set xs. \<forall>b\<in>set xs. a = b))"
  proof
    assume "\<exists>x. set xs = {x}"
    then obtain x where x: "set xs = {x}" ..
    then have "xs \<noteq> []" by auto
    with x show "xs \<noteq> [] \<and> (\<forall>a\<in>set xs. \<forall>b\<in>set xs. a = b)" by simp
  next
    assume a: "xs \<noteq> [] \<and> (\<forall>a\<in>set xs. \<forall>b\<in>set xs. a = b)"
    then obtain x where "x \<in> set xs" by (cases xs) auto
    with a have "set xs = {x}" by auto
    then show "\<exists>x. set xs = {x}" ..
  qed
  finally show ?thesis .
qed

lemma weighted_sum_mono:
  fixes w a b :: "'a \<Rightarrow> real"
  assumes "\<forall>p\<in>set ps. 0 \<le> w p \<and> a p \<le> b p"
  shows "(\<Sum>p\<leftarrow>ps. w p * a p) \<le> (\<Sum>p\<leftarrow>ps. w p * b p)"
  using assms by (intro sum_list_mono) (simp add: mult_left_mono)

lemma weighted_sum_strict:
  fixes w a b :: "'a \<Rightarrow> real"
  assumes "\<forall>p\<in>set ps. 0 \<le> w p \<and> a p < b p" and "0 < (\<Sum>p\<leftarrow>ps. w p)"
  shows "(\<Sum>p\<leftarrow>ps. w p * a p) < (\<Sum>p\<leftarrow>ps. w p * b p)"
  using assms
proof (induction ps)
  case Nil
  then show ?case by simp
next
  case (Cons p ps)
  have wp: "0 \<le> w p" and ab: "a p < b p" using Cons.prems(1) by simp_all
  have rest_le: "(\<Sum>q\<leftarrow>ps. w q * a q) \<le> (\<Sum>q\<leftarrow>ps. w q * b q)"
    using Cons.prems(1) by (intro weighted_sum_mono) (simp add: less_imp_le)
  show ?case
  proof (cases "0 < w p")
    case True
    then have "w p * a p < w p * b p" using ab by simp
    with rest_le show ?thesis by simp
  next
    case False
    with wp have z: "w p = 0" by simp
    with Cons.prems(2) have "0 < (\<Sum>q\<leftarrow>ps. w q)" by simp
    with Cons.IH Cons.prems(1) have "(\<Sum>q\<leftarrow>ps. w q * a q) < (\<Sum>q\<leftarrow>ps. w q * b q)" by simp
    then show ?thesis using z by simp
  qed
qed

lemma ensemble_path:
  assumes valid: "filter success predictions = p # q # rest"
    and len: "\<forall>x\<in>set (p # q # rest). length (probabilities x) = n"
    and dist: "distinct (map model (p # q # rest))"
    and n: "0 < n"
  shows "\<exists>r t'. ensemble_predictions t predictions = Inr (Ensemble r, t')
      \<and> fr_probabilities r =
          map (\<lambda>i. np_div (\<Sum>x\<leftarrow>p # q # rest. weight_of (ensemble_weights t) (model x) * probabilities x ! i)
                           (sum_list (map snd (ensemble_weights t)))) [0..<n]
      \<and> fr_prediction r = np_argmax (fr_probabilities r)
      \<and> fr_confidence r = fr_probabilities r ! fr_prediction r
      \<and> fr_agreement r = (length (remdups (map prediction (p # q # rest))) = 1)
      \<and> fr_models_used r = map model (p # q # rest)
      \<and> fr_method r = ''ensemble''
      \<and> fr_model_results r = map (\<lambda>x. (model x, model_entry x)) (p # q # rest)
      \<and> ensemble_weights t' = ensemble_weights t
      \<and> results_cache t' = deque_append 10 (results_cache t) r
      \<and> stat_ensemble_predictions (stats t') = stat_ensemble_predictions (stats t) + 1"
proof -
  let ?ws = "ensemble_weights t"
  let ?valid = "p # q # rest"
  let ?summed = "map (\<lambda>i. \<Sum>x\<leftarrow>?valid. weight_of ?ws (model x) * probabilities x ! i) [0..<n]"
  let ?results = "map (\<lambda>x. (model x, model_entry x)) ?valid"
  have build: "foldl (\<lambda>d x. dict_set d (model x) (model_entry x)) [] ?valid = [] @ ?results"
    using dist by (intro dict_build_distinct) simp_all
  have loop: "fuse_loop ?ws ?valid None [] = Inr (Some ?summed, ?results)"
    using fuse_loop_None[OF len, of ?ws "[]"] build by simp
  have probs: "map (\<lambda>x. np_div x (sum_list (map snd ?ws))) ?summed =
      map (\<lambda>i. np_div (\<Sum>x\<leftarrow>?valid. weight_of ?ws (model x) * probabilities x ! i)
                       (sum_list (map snd ?ws))) [0..<n]"
    by simp
  have ne: "map (\<lambda>i. np_div (\<Sum>x\<leftarrow>?valid. weight_of ?ws (model x) * probabilities x ! i)
                       (sum_list (map snd ?ws))) [0..<n] \<noteq> []"
    using n by simp
  have preds: "map (\<lambda>r. mr_prediction (snd r)) ?results = map prediction ?valid"
    by (simp add: model_entry_def)
  have used: "map fst ?results = map model ?valid" by simp
  show ?thesis
    unfolding ensemble_predictions_def valid
    by (simp only: loop Let_def sum.case prod.case option.case probs ne preds used
          list.distinct list.size if_False)
       (simp del: fuse_loop.simps np_argmax.simps)
qed

lemma fused_argmax:
  fixes w :: "'a \<Rightarrow> real" and pr :: "'a \<Rightarrow> real list"
  assumes len: "\<forall>x\<in>set valid. length (pr x) = n"
    and top: "\<forall>x\<in>set valid. (\<forall>j<n. pr x ! j \<le> pr x ! X) \<and> (\<forall>j<X. pr x ! j < pr x ! X)"
    and w: "\<forall>x\<in>set valid. 0 \<le> w x"
    and pos: "0 < (\<Sum>x\<leftarrow>valid. w x)"
    and tot: "0 < tot" and X: "X < n"
  shows "np_argmax (map (\<lambda>i. np_div (\<Sum>x\<leftarrow>valid. w x * pr x ! i) tot) [0..<n]) = X"
proof -
  let ?v = "map (\<lambda>i. (\<Sum>x\<leftarrow>valid. w x * pr x ! i) / tot) [0..<n]"
  have fin: "map (\<lambda>i. np_div (\<Sum>x\<leftarrow>valid. w x * pr x ! i) tot) [0..<n] = map Finite ?v"
    using tot by (simp add: np_div_def)
  have le: "\<forall>j<length ?v. ?v ! j \<le> ?v ! X"
  proof (intro allI impI)
    fix j assume "j < length ?v"
    then have j: "j < n" by simp
    have "\<forall>x\<in>set valid. 0 \<le> w x \<and> pr x ! j \<le> pr x ! X"
      using top w j by simp
    then have "(\<Sum>x\<leftarrow>valid. w x * pr x ! j) \<le> (\<Sum>x\<leftarrow>valid. w x * pr x ! X)"
      by (rule weighted_sum_mono)
    then show "?v ! j \<le> ?v ! X"
      using j X tot by (simp add: divide_right_mono)
  qed
  have lt: "\<forall>j<X. ?v ! j < ?v ! X"
  proof (intro allI impI)
    fix j assume jX: "j < X"
    then have j: "j < n" using X by simp
    have "\<forall>x\<in>set valid. 0 \<le> w x \<and> pr x ! j < pr x ! X"
      using top w jX by simp
    then have "(\<Sum>x\<leftarrow>valid. w x * pr x ! j) < (\<Sum>x\<leftarrow>valid. w x * pr x ! X)"
      using pos by (rule weighted_sum_strict)
    then show "?v ! j < ?v ! X"
      using j X tot by (simp add: divide_strict_right_mono)
  qed
  have "X < length ?v" using X by simp
  then have "np_argmax (map Finite ?v) = X" using le lt by (rule np_argmax_first_max)
  then show ?thesis by (simp only: fin)
qed

text \<open>
  C2, as amended. Take a fusion of two or more valid predictions from distinct channels
  with score vectors of one non-zero length \<open>n\<close>. It returns a fused result whose agreement
  flag is true if and only if the top-1 predictions of all the contributing channels are
  identical. Its score at each index is the sum of the channels' scores there, each
  times its channel's weight (the stored weight, 0.5 for a channel without one), divided
  by the sum of the stored weights; with a non-zero sum of the stored weights its top-1
  is the first index that holds the greatest fused score. If every channel's top-1 is
  the same label \<open>X\<close>, that label being the first index of the greatest score of the
  channel's own vector, and if the channels' weights are not negative and not all zero
  and the sum of the stored weights is positive, then the agreement flag is true and the
  fused top-1 is \<open>X\<close>.
\<close>

theorem agreement_iff_same_top1:
  assumes valid: "filter success predictions = valid" and two: "2 \<le> length valid"
    and len: "\<forall>x\<in>set valid. length (probabilities x) = n" and n: "0 < n"
    and dist: "distinct (map model valid)"
  shows
    "let weight = (\<lambda>x. case map_of (ensemble_weights t) (model x) of Some w \<Rightarrow> w | None \<Rightarrow> 1 / 2);
         total = sum_list (map snd (ensemble_weights t));
         summed = (\<lambda>i. \<Sum>x\<leftarrow>valid. weight x * probabilities x ! i)
     in \<exists>r t'. ensemble_predictions t predictions = Inr (Ensemble r, t')
        \<and> (fr_agreement r \<longleftrightarrow> (\<forall>x\<in>set valid. \<forall>y\<in>set valid. prediction x = prediction y))
        \<and> length (fr_probabilities r) = n
        \<and> (\<forall>i<n. fr_probabilities r ! i =
              (if total \<noteq> 0 then Finite (summed i / total)
               else if summed i > 0 then PosInf else if summed i < 0 then NegInf else NaN))
        \<and> fr_confidence r = fr_probabilities r ! fr_prediction r
        \<and> (total \<noteq> 0 \<longrightarrow>
              fr_prediction r < n
            \<and> (\<forall>j<n. summed j / total \<le> summed (fr_prediction r) / total)
            \<and> (\<forall>j<fr_prediction r. summed j / total < summed (fr_prediction r) / total))
        \<and> (\<forall>X. (\<forall>x\<in>set valid. prediction x = X
                       \<and> (\<forall>j<n. probabilities x ! j \<le> probabilities x ! X)
                       \<and> (\<forall>j<X. probabilities x ! j < probabilities x ! X)
                       \<and> 0 \<le> weight x)
                 \<and> X < n \<and> 0 < (\<Sum>x\<leftarrow>valid. weight x) \<and> 0 < total
               \<longrightarrow> fr_agreement r \<and> fr_prediction r = X)"
proof -
  let ?ws = "ensemble_weights t"
  let ?weight = "\<lambda>x. case map_of ?ws (model x) of Some w \<Rightarrow> w | None \<Rightarrow> 1 / 2"
  let ?total = "sum_list (map snd ?ws)"
  let ?summed = "\<lambda>i. \<Sum>x\<leftarrow>valid. ?weight x * probabilities x ! i"
  have w: "\<And>x. weight_of ?ws (model x) = ?weight x"
    by (simp add: weight_of_def split: option.splits)
  from two obtain p q rest where pq: "valid = p # q # rest"
    by (cases valid; cases "tl valid") auto
  from ensemble_path[OF valid[unfolded pq] len[unfolded pq] dist[unfolded pq] n, of t]
  obtain r t' where res: "ensemble_predictions t predictions = Inr (Ensemble r, t')"
    and probs: "fr_probabilities r = map (\<lambda>i. np_div (?summed i) ?total) [0..<n]"
    and top: "fr_prediction r = np_argmax (fr_probabilities r)"
    and conf: "fr_confidence r = fr_probabilities r ! fr_prediction r"
    and agr: "fr_agreement r = (length (remdups (map prediction valid)) = 1)"
    unfolding pq w by blast
  have nonempty: "valid \<noteq> []" using pq by simp
  have agree: "fr_agreement r \<longleftrightarrow> (\<forall>x\<in>set valid. \<forall>y\<in>set valid. prediction x = prediction y)"
    unfolding agr remdups_single_iff using nonempty by auto
  have plen: "length (fr_probabilities r) = n" unfolding probs by simp
  have pnth: "\<forall>i<n. fr_probabilities r ! i =
              (if ?total \<noteq> 0 then Finite (?summed i / ?total)
               else if ?summed i > 0 then PosInf else if ?summed i < 0 then NegInf else NaN)"
    unfolding probs by (simp add: np_div_def)
  have general: "?total \<noteq> 0 \<longrightarrow>
              fr_prediction r < n
            \<and> (\<forall>j<n. ?summed j / ?total \<le> ?summed (fr_prediction r) / ?total)
            \<and> (\<forall>j<fr_prediction r. ?summed j / ?total < ?summed (fr_prediction r) / ?total)"
  proof
    assume nz: "?total \<noteq> 0"
    define v where "v = map (\<lambda>i. ?summed i / ?total) [0..<n]"
    have vlen: "length v = n" by (simp add: v_def)
    have vnth: "\<And>i. i < n \<Longrightarrow> v ! i = ?summed i / ?total" by (simp add: v_def)
    have fin: "fr_probabilities r = map Finite v"
      unfolding probs v_def using nz by (simp add: np_div_def)
    have "v \<noteq> []" using n vlen by auto
    from np_argmax_finite[OF this] have
      a: "np_argmax (map Finite v) < length v"
      and b: "\<forall>j<length v. v ! j \<le> v ! np_argmax (map Finite v)"
      and c: "\<forall>j<np_argmax (map Finite v). v ! j < v ! np_argmax (map Finite v)"
      by blast+
    have k: "fr_prediction r = np_argmax (map Finite v)" using top fin by simp
    have kn: "fr_prediction r < n" using a k vlen by simp
    have b': "\<forall>j<n. ?summed j / ?total \<le> ?summed (fr_prediction r) / ?total"
    proof (intro allI impI)
      fix j assume j: "j < n"
      then have "v ! j \<le> v ! fr_prediction r" using b k vlen by simp
      then show "?summed j / ?total \<le> ?summed (fr_prediction r) / ?total"
        by (simp only: vnth[OF j] vnth[OF kn])
    qed
    have c': "\<forall>j<fr_prediction r. ?summed j / ?total < ?summed (fr_prediction r) / ?total"
    proof (intro allI impI)
      fix j assume j: "j < fr_prediction r"
      then have jn: "j < n" using kn by simp
      have "v ! j < v ! fr_prediction r" using c j k by simp
      then show "?summed j / ?total < ?summed (fr_prediction r) / ?total"
        by (simp only: vnth[OF jn] vnth[OF kn])
    qed
    from kn b' c' show "fr_prediction r < n
            \<and> (\<forall>j<n. ?summed j / ?total \<le> ?summed (fr_prediction r) / ?total)
            \<and> (\<forall>j<fr_prediction r. ?summed j / ?total < ?summed (fr_prediction r) / ?total)"
      by (intro conjI)
  qed
  have fused: "\<forall>X. (\<forall>x\<in>set valid. prediction x = X
                       \<and> (\<forall>j<n. probabilities x ! j \<le> probabilities x ! X)
                       \<and> (\<forall>j<X. probabilities x ! j < probabilities x ! X)
                       \<and> 0 \<le> ?weight x)
                 \<and> X < n \<and> 0 < (\<Sum>x\<leftarrow>valid. ?weight x) \<and> 0 < ?total
               \<longrightarrow> fr_agreement r \<and> fr_prediction r = X"
  proof (intro allI impI)
    fix X
    assume h: "(\<forall>x\<in>set valid. prediction x = X
                       \<and> (\<forall>j<n. probabilities x ! j \<le> probabilities x ! X)
                       \<and> (\<forall>j<X. probabilities x ! j < probabilities x ! X)
                       \<and> 0 \<le> ?weight x)
                 \<and> X < n \<and> 0 < (\<Sum>x\<leftarrow>valid. ?weight x) \<and> 0 < ?total"
    then have a: "fr_agreement r" unfolding agree by simp
    have "np_argmax (map (\<lambda>i. np_div (?summed i) ?total) [0..<n]) = X"
      using len h by (intro fused_argmax) simp_all
    then show "fr_agreement r \<and> fr_prediction r = X" using a top probs by simp
  qed
  from res agree plen pnth conf general fused show ?thesis
    unfolding Let_def by blast
qed

theorem agreement_iff_same_top1_witness:
  "filter success
     [\<lparr> success = True, model = ''i3d'', prediction = 1, confidence = 0.95,
        probabilities = [0.05, 0.95], top_k_indices = [1, 0], top_k_confidences = [0.95, 0.05] \<rparr>,
      \<lparr> success = True, model = ''tgcn'', prediction = 1, confidence = 0.9,
        probabilities = [0.1, 0.9], top_k_indices = [1, 0], top_k_confidences = [0.9, 0.1] \<rparr>]
   = [\<lparr> success = True, model = ''i3d'', prediction = 1, confidence = 0.95,
        probabilities = [0.05, 0.95], top_k_indices = [1, 0], top_k_confidences = [0.95, 0.05] \<rparr>,
      \<lparr> success = True, model = ''tgcn'', prediction = 1, confidence = 0.9,
        probabilities = [0.1, 0.9], top_k_indices = [1, 0], top_k_confidences = [0.9, 0.1] \<rparr>]
   \<and> 0 < sum_list (map snd (ensemble_weights (EnsembleTranslator_init None)))
   \<and> (case ensemble_predictions (EnsembleTranslator_init None)
          [\<lparr> success = True, model = ''i3d'', prediction = 1, confidence = 0.95,
             probabilities = [0.05, 0.95], top_k_indices = [1, 0], top_k_confidences = [0.95, 0.05] \<rparr>,
           \<lparr> success = True, model = ''tgcn'', prediction = 1, confidence = 0.9,
             probabilities = [0.1, 0.9], top_k_indices = [1, 0], top_k_confidences = [0.9, 0.1] \<rparr>] of
        Inr (Ensemble r, t') \<Rightarrow> fr_agreement r \<and> fr_prediction r = 1
      | _ \<Rightarrow> False)"
proof -
  let ?p1 = "\<lparr> success = True, model = ''i3d'', prediction = 1, confidence = 0.95,
        probabilities = [0.05, 0.95], top_k_indices = [1, 0], top_k_confidences = [0.95, 0.05] \<rparr>"
  let ?p2 = "\<lparr> success = True, model = ''tgcn'', prediction = 1, confidence = 0.9,
        probabilities = [0.1, 0.9], top_k_indices = [1, 0], top_k_confidences = [0.9, 0.1] \<rparr>"
  let ?t = "EnsembleTranslator_init None"
  let ?weight = "\<lambda>x. case map_of (ensemble_weights ?t) (model x) of Some w \<Rightarrow> w | None \<Rightarrow> 1 / 2"
  have valid: "filter success [?p1, ?p2] = [?p1, ?p2]" by simp
  have two: "2 \<le> length [?p1, ?p2]" by simp
  have len: "\<forall>x\<in>set [?p1, ?p2]. length (probabilities x) = 2" by simp
  have dist: "distinct (map model [?p1, ?p2])" by simp
  have total: "0 < sum_list (map snd (ensemble_weights ?t))"
    by (simp add: EnsembleTranslator_init_def)
  have hyps: "(\<forall>x\<in>set [?p1, ?p2]. prediction x = 1
                  \<and> (\<forall>j<2. probabilities x ! j \<le> probabilities x ! 1)
                  \<and> (\<forall>j<1. probabilities x ! j < probabilities x ! 1)
                  \<and> 0 \<le> ?weight x)
              \<and> (1::nat) < 2 \<and> 0 < (\<Sum>x\<leftarrow>[?p1, ?p2]. ?weight x)
              \<and> 0 < sum_list (map snd (ensemble_weights ?t))"
    by (simp add: EnsembleTranslator_init_def less_2_cases_iff)
  from agreement_iff_same_top1[OF valid two len _ dist, of ?t, unfolded Let_def]
  obtain r t' where res: "ensemble_predictions ?t [?p1, ?p2] = Inr (Ensemble r, t')"
    and top: "\<forall>X. (\<forall>x\<in>set [?p1, ?p2]. prediction x = X
                       \<and> (\<forall>j<2. probabilities x ! j \<le> probabilities x ! X)
                       \<and> (\<forall>j<X. probabilities x ! j < probabilities x ! X)
                       \<and> 0 \<le> ?weight x)
                 \<and> X < 2 \<and> 0 < (\<Sum>x\<leftarrow>[?p1, ?p2]. ?weight x)
                 \<and> 0 < sum_list (map snd (ensemble_weights ?t))
               \<longrightarrow> fr_agreement r \<and> fr_prediction r = X"
    by (elim exE conjE | simp)+
  from top[rule_format, of 1] hyps have "fr_agreement r \<and> fr_prediction r = 1" by blast
  with res valid total show ?thesis by simp
qed

text \<open>
  C2 as stated fails when a stored weight is negative. The weights 10 and -9 (they sum
  to 1, so \<open>update_ensemble_weights\<close> stores them as they are) are accepted; both channels
  report label 1, with confidences 0.9 and 0.95; the flag of agreement is true and the
  fused top-1 is label 0.
\<close>

theorem negative_weight_moves_fused_top1:
  "update_ensemble_weights (EnsembleTranslator_init None) [(''i3d'', 10), (''tgcn'', - 9)]
     = Inr ((EnsembleTranslator_init None)\<lparr> ensemble_weights := [(''i3d'', 10), (''tgcn'', - 9)] \<rparr>)
   \<and> (case ensemble_predictions
          ((EnsembleTranslator_init None)\<lparr> ensemble_weights := [(''i3d'', 10), (''tgcn'', - 9)] \<rparr>)
          [\<lparr> success = True, model = ''i3d'', prediction = 1, confidence = 0.9,
             probabilities = [0.1, 0.9], top_k_indices = [1, 0], top_k_confidences = [0.9, 0.1] \<rparr>,
           \<lparr> success = True, model = ''tgcn'', prediction = 1, confidence = 0.95,
             probabilities = [0.05, 0.95], top_k_indices = [1, 0], top_k_confidences = [0.95, 0.05] \<rparr>] of
        Inr (Ensemble r, t') \<Rightarrow>
          fr_agreement r \<and> fr_prediction r = 0
          \<and> fr_probabilities r = [Finite 0.55, Finite 0.45]
      | _ \<Rightarrow> False)"
  by (simp add: update_ensemble_weights_def ensemble_predictions_def EnsembleTranslator_init_def
        Let_def weight_of_def np_iadd_def model_entry_def deque_append_def np_div_def)

text \<open>
  C6. When exactly one prediction is valid and it comes from one of the two channels,
  the fusion returns that prediction itself, with the method \<open>ensemble_single\<close> and
  \<open>models_used\<close> naming its channel alone; the usage counter of that channel goes up by
  one, and nothing else of the translator changes.
\<close>

theorem single_valid_prediction_passes_through:
  assumes "filter success predictions = [p]" and "model p = ''i3d'' \<or> model p = ''tgcn''"
  shows "ensemble_predictions t predictions =
     Inr (SingleModel p ''ensemble_single'' [model p],
          t\<lparr> stats := (stats t)
               \<lparr> stat_i3d_only := stat_i3d_only (stats t) + (if model p = ''i3d'' then 1 else 0),
                 stat_tgcn_only := stat_tgcn_only (stats t) + (if model p = ''tgcn'' then 1 else 0) \<rparr> \<rparr>)"
  using assms by (auto simp: single_path)

theorem single_valid_prediction_passes_through_witness:
  "ensemble_predictions (EnsembleTranslator_init None)
     [\<lparr> success = False, model = ''i3d'', prediction = 0, confidence = 0,
        probabilities = [], top_k_indices = [], top_k_confidences = [] \<rparr>,
      \<lparr> success = True, model = ''tgcn'', prediction = 1, confidence = 0.9,
        probabilities = [0.1, 0.9], top_k_indices = [1, 0], top_k_confidences = [0.9, 0.1] \<rparr>]
   = Inr (SingleModel
            \<lparr> success = True, model = ''tgcn'', prediction = 1, confidence = 0.9,
              probabilities = [0.1, 0.9], top_k_indices = [1, 0], top_k_confidences = [0.9, 0.1] \<rparr>
            ''ensemble_single'' [''tgcn''],
          (EnsembleTranslator_init None)
            \<lparr> stats := (stats (EnsembleTranslator_init None)) \<lparr> stat_tgcn_only := 1 \<rparr> \<rparr>)"
  using single_valid_prediction_passes_through
    [of "[\<lparr> success = False, model = ''i3d'', prediction = 0, confidence = 0,
            probabilities = [], top_k_indices = [], top_k_confidences = [] \<rparr>,
          \<lparr> success = True, model = ''tgcn'', prediction = 1, confidence = 0.9,
            probabilities = [0.1, 0.9], top_k_indices = [1, 0], top_k_confidences = [0.9, 0.1] \<rparr>]"
        "\<lparr> success = True, model = ''tgcn'', prediction = 1, confidence = 0.9,
            probabilities = [0.1, 0.9], top_k_indices = [1, 0], top_k_confidences = [0.9, 0.1] \<rparr>"
        "EnsembleTranslator_init None"]
  by (simp add: EnsembleTranslator_init_def)

subsection \<open>Running statistics\<close>

lemma np_scale_quot:
  "0 < k \<Longrightarrow> np_scale (np_quot a k) k = a"
  by (cases a) simp_all

lemma np_sum_snoc: "np_sum (xs @ [c]) = np_add (np_sum xs) c"
  by (simp add: np_sum_def)

lemma mean_step:
  assumes "mean = (if h = [] then Finite 0 else np_quot (np_sum h) (real (length h)))"
  shows "np_quot (np_add (np_scale mean (real (length h))) c) (real (length h + 1))
       = np_quot (np_sum (h @ [c])) (real (length (h @ [c])))"
proof (cases "h = []")
  case True
  then show ?thesis using assms by (simp add: np_sum_def)
next
  case False
  then have pos: "0 < real (length h)" by simp
  have "np_scale mean (real (length h)) = np_sum h"
    using assms False np_scale_quot[OF pos] by simp
  then show ?thesis by (simp add: np_sum_snoc)
qed

lemma rate_step:
  fixes rate :: real
  assumes "rate = (if h = [] then 0 else real (length (filter P h)) / real (length h))"
  shows "(rate * real (length h) + (if P c then 1 else 0)) / real (length h + 1)
       = real (length (filter P (h @ [c]))) / real (length (h @ [c]))"
  using assms by (cases "h = []") (simp_all add: field_simps)

lemma fused_step_effect:
  assumes "ensemble_predictions t ps = Inr (Ensemble r, t')"
  shows "stat_ensemble_predictions (stats t') = stat_ensemble_predictions (stats t) + 1"
    and "stat_agreement_rate (stats t') =
          (stat_agreement_rate (stats t) * real (stat_ensemble_predictions (stats t))
             + (if fr_agreement r then 1 else 0))
          / real (stat_ensemble_predictions (stats t) + 1)"
    and "stat_average_confidence (stats t') =
          np_quot (np_add (np_scale (stat_average_confidence (stats t))
                                    (real (stat_ensemble_predictions (stats t))))
                          (fr_confidence r))
                  (real (stat_ensemble_predictions (stats t) + 1))"
    and "stat_i3d_only (stats t') = stat_i3d_only (stats t)"
    and "stat_tgcn_only (stats t') = stat_tgcn_only (stats t)"
  using assms
  by (auto simp: ensemble_predictions_def Let_def
           split: if_splits sum.splits prod.splits option.splits)

lemma other_step_effect:
  assumes "ensemble_predictions t ps = Inr (res, t')" and "fused_of [Inr res] = []"
  shows "stat_ensemble_predictions (stats t') = stat_ensemble_predictions (stats t)"
    and "stat_agreement_rate (stats t') = stat_agreement_rate (stats t)"
    and "stat_average_confidence (stats t') = stat_average_confidence (stats t)"
  using assms
  by (auto simp: ensemble_predictions_def Let_def
           split: if_splits sum.splits prod.splits option.splits)

lemma counters_step_effect:
  assumes "ensemble_predictions t ps = Inr (res, t')"
  shows "stat_i3d_only (stats t') =
           stat_i3d_only (stats t) + length (filter (\<lambda>p. model p = ''i3d'') (singles_of [Inr res]))"
    and "stat_tgcn_only (stats t') =
           stat_tgcn_only (stats t) + length (filter (\<lambda>p. model p = ''tgcn'') (singles_of [Inr res]))"
  using assms
  by (auto simp: ensemble_predictions_def Let_def
           split: if_splits sum.splits prod.splits option.splits)

lemma step_history:
  assumes step: "ensemble_predictions t ps = Inr (res, t')"
    and n: "stat_ensemble_predictions (stats t) = length h"
    and mean: "stat_average_confidence (stats t) =
        (if h = [] then Finite 0
         else np_quot (np_sum (map fr_confidence h)) (real (length h)))"
    and rate: "stat_agreement_rate (stats t) =
        (if h = [] then 0 else real (length (filter fr_agreement h)) / real (length h))"
  shows "stat_ensemble_predictions (stats t') = length (h @ fused_of [Inr res])
       \<and> stat_average_confidence (stats t') =
           (if h @ fused_of [Inr res] = [] then Finite 0
            else np_quot (np_sum (map fr_confidence (h @ fused_of [Inr res])))
                         (real (length (h @ fused_of [Inr res]))))
       \<and> stat_agreement_rate (stats t') =
           (if h @ fused_of [Inr res] = [] then 0
            else real (length (filter fr_agreement (h @ fused_of [Inr res])))
                   / real (length (h @ fused_of [Inr res])))"
proof (cases "\<exists>r. res = Ensemble r")
  case True
  then obtain r where r: "res = Ensemble r" ..
  note E = fused_step_effect[OF step[unfolded r]]
  have f: "fused_of [Inr res] = [r]" using r by simp
  have mean': "stat_average_confidence (stats t) =
      (if map fr_confidence h = [] then Finite 0
       else np_quot (np_sum (map fr_confidence h)) (real (length (map fr_confidence h))))"
    using mean by simp
  have m: "stat_average_confidence (stats t') =
      np_quot (np_sum (map fr_confidence h @ [fr_confidence r]))
              (real (length (map fr_confidence h @ [fr_confidence r])))"
    using mean_step[OF mean', of "fr_confidence r"] E(3) n by simp
  have a: "stat_agreement_rate (stats t') =
      real (length (filter fr_agreement (h @ [r]))) / real (length (h @ [r]))"
    using rate_step[OF rate, of r] E(2) n by simp
  show ?thesis unfolding f using E(1) n m a by simp
next
  case False
  then have f: "fused_of [Inr res] = []"
    by (cases res) simp_all
  note O = other_step_effect[OF step f]
  show ?thesis unfolding f using O n mean rate by simp
qed

lemma run_history:
  assumes n: "stat_ensemble_predictions (stats t) = length h"
    and mean: "stat_average_confidence (stats t) =
        (if h = [] then Finite 0
         else np_quot (np_sum (map fr_confidence h)) (real (length h)))"
    and rate: "stat_agreement_rate (stats t) =
        (if h = [] then 0 else real (length (filter fr_agreement h)) / real (length h))"
  shows "stat_ensemble_predictions (stats (snd (run_fusions t inputs))) =
           length (h @ fused_of (fst (run_fusions t inputs)))
       \<and> stat_average_confidence (stats (snd (run_fusions t inputs))) =
           (if h @ fused_of (fst (run_fusions t inputs)) = [] then Finite 0
            else np_quot (np_sum (map fr_confidence (h @ fused_of (fst (run_fusions t inputs)))))
                         (real (length (h @ fused_of (fst (run_fusions t inputs))))))
       \<and> stat_agreement_rate (stats (snd (run_fusions t inputs))) =
           (if h @ fused_of (fst (run_fusions t inputs)) = [] then 0
            else real (length (filter fr_agreement (h @ fused_of (fst (run_fusions t inputs)))))
                   / real (length (h @ fused_of (fst (run_fusions t inputs)))))"
  using assms
proof (induction inputs arbitrary: t h)
  case Nil
  then show ?case by simp
next
  case (Cons ps rest)
  show ?case
  proof (cases "ensemble_predictions t ps")
    case (Inl err)
    obtain rs t' where run: "run_fusions t rest = (rs, t')" by (cases "run_fusions t rest")
    have whole: "run_fusions t (ps # rest) = (Inl err # rs, t')" using Inl run by simp
    have f: "fused_of (Inl err # rs) = fused_of rs" by simp
    note IH = Cons.IH[OF Cons.prems, unfolded run fst_conv snd_conv]
    show ?thesis unfolding whole fst_conv snd_conv f by (rule IH)
  next
    case (Inr a)
    obtain res t1 where a: "a = (res, t1)" by (cases a)
    obtain rs t' where run: "run_fusions t1 rest = (rs, t')" by (cases "run_fusions t1 rest")
    have whole: "run_fusions t (ps # rest) = (Inr res # rs, t')" using Inr a run by simp
    have f: "fused_of (Inr res # rs) = fused_of [Inr res] @ fused_of rs"
      by (cases "(Inr res # rs)" rule: fused_of.cases) simp_all
    from step_history[OF Inr[unfolded a] Cons.prems]
    have s1: "stat_ensemble_predictions (stats t1) = length (h @ fused_of [Inr res])"
      and s2: "stat_average_confidence (stats t1) =
           (if h @ fused_of [Inr res] = [] then Finite 0
            else np_quot (np_sum (map fr_confidence (h @ fused_of [Inr res])))
                         (real (length (h @ fused_of [Inr res]))))"
      and s3: "stat_agreement_rate (stats t1) =
           (if h @ fused_of [Inr res] = [] then 0
            else real (length (filter fr_agreement (h @ fused_of [Inr res])))
                   / real (length (h @ fused_of [Inr res])))"
      by blast+
    note IH = Cons.IH[OF s1 s2 s3, unfolded run fst_conv snd_conv append_assoc]
    show ?thesis unfolding whole fst_conv snd_conv f by (rule IH)
  qed
qed

lemma run_counters:
  "stat_i3d_only (stats (snd (run_fusions t inputs))) =
      stat_i3d_only (stats t)
        + length (filter (\<lambda>p. model p = ''i3d'') (singles_of (fst (run_fusions t inputs))))
   \<and> stat_tgcn_only (stats (snd (run_fusions t inputs))) =
      stat_tgcn_only (stats t)
        + length (filter (\<lambda>p. model p = ''tgcn'') (singles_of (fst (run_fusions t inputs))))"
proof (induction inputs arbitrary: t)
  case Nil
  show ?case by simp
next
  case (Cons ps rest)
  show ?case
  proof (cases "ensemble_predictions t ps")
    case (Inl err)
    obtain rs t' where run: "run_fusions t rest = (rs, t')" by (cases "run_fusions t rest")
    have whole: "run_fusions t (ps # rest) = (Inl err # rs, t')" using Inl run by simp
    have g: "singles_of (Inl err # rs) = singles_of rs" by simp
    note IH = Cons.IH[of t, unfolded run fst_conv snd_conv]
    show ?thesis unfolding whole fst_conv snd_conv g by (rule IH)
  next
    case (Inr a)
    obtain res t1 where a: "a = (res, t1)" by (cases a)
    obtain rs t' where run: "run_fusions t1 rest = (rs, t')" by (cases "run_fusions t1 rest")
    have whole: "run_fusions t (ps # rest) = (Inr res # rs, t')" using Inr a run by simp
    have g: "singles_of (Inr res # rs) = singles_of [Inr res] @ singles_of rs"
      by (cases "(Inr res # rs)" rule: singles_of.cases) simp_all
    note S = counters_step_effect[OF Inr[unfolded a]]
    note IH = Cons.IH[of t1, unfolded run fst_conv snd_conv]
    show ?thesis unfolding whole fst_conv snd_conv g using S IH by simp
  qed
qed

lemma np_sum_finite: "np_sum (map Finite cs) = Finite (sum_list cs)"
proof -
  have "\<And>a. foldl np_add (Finite a) (map Finite cs) = Finite (a + sum_list cs)"
    by (induction cs) (simp_all add: add.assoc)
  from this[of 0] show ?thesis by (simp add: np_sum_def)
qed

text \<open>
  C7, as amended. Start from fresh statistics and run any sequence of fusions. The
  prediction count is the number of fusions of two or more valid predictions. The running
  mean confidence is the mean of the fused confidences of those fusions: their float sum
  divided by their number, which is the arithmetic mean whenever the confidences are
  finite (they are infinite or NaN only for a zero sum of the stored weights). The
  running agreement rate is the fraction of those fusions whose agreement flag was true.
  Mean and rate are 0 while there is no such fusion. Each per-channel-only counter is
  the number of single-channel fusions that passed that channel's prediction through; a
  single-channel fusion changes no statistic but its channel's counter.
\<close>

theorem running_statistics:
  assumes "stats t = stats (EnsembleTranslator_init w)"
  shows
    "stat_ensemble_predictions (stats (snd (run_fusions t inputs))) =
        length (fused_of (fst (run_fusions t inputs)))
     \<and> stat_average_confidence (stats (snd (run_fusions t inputs))) =
        (if fused_of (fst (run_fusions t inputs)) = [] then Finite 0
         else np_quot (np_sum (map fr_confidence (fused_of (fst (run_fusions t inputs)))))
                      (real (length (fused_of (fst (run_fusions t inputs))))))
     \<and> (\<forall>cs. cs \<noteq> [] \<and> map fr_confidence (fused_of (fst (run_fusions t inputs))) = map Finite cs
           \<longrightarrow> stat_average_confidence (stats (snd (run_fusions t inputs))) =
                 Finite (sum_list cs / real (length cs)))
     \<and> stat_agreement_rate (stats (snd (run_fusions t inputs))) =
        (if fused_of (fst (run_fusions t inputs)) = [] then 0
         else real (length (filter fr_agreement (fused_of (fst (run_fusions t inputs)))))
                / real (length (fused_of (fst (run_fusions t inputs)))))
     \<and> stat_i3d_only (stats (snd (run_fusions t inputs))) =
        length (filter (\<lambda>p. model p = ''i3d'') (singles_of (fst (run_fusions t inputs))))
     \<and> stat_tgcn_only (stats (snd (run_fusions t inputs))) =
        length (filter (\<lambda>p. model p = ''tgcn'') (singles_of (fst (run_fusions t inputs))))"
proof -
  let ?fused = "fused_of (fst (run_fusions t inputs))"
  let ?final = "stats (snd (run_fusions t inputs))"
  have n0: "stat_ensemble_predictions (stats t) = length ([] :: fused_result list)"
    and m0: "stat_average_confidence (stats t) =
        (if ([] :: fused_result list) = [] then Finite 0
         else np_quot (np_sum (map fr_confidence [])) (real (length ([] :: fused_result list))))"
    and r0: "stat_agreement_rate (stats t) =
        (if ([] :: fused_result list) = [] then 0
         else real (length (filter fr_agreement [])) / real (length ([] :: fused_result list)))"
    and c0: "stat_i3d_only (stats t) = 0" "stat_tgcn_only (stats t) = 0"
    using assms by (simp_all add: EnsembleTranslator_init_def)
  note H = run_history[OF n0 m0 r0, of inputs, unfolded append_Nil]
  have count: "stat_ensemble_predictions ?final = length ?fused" using H by blast
  have mean: "stat_average_confidence ?final =
        (if ?fused = [] then Finite 0
         else np_quot (np_sum (map fr_confidence ?fused)) (real (length ?fused)))"
    using H by blast
  have rate: "stat_agreement_rate ?final =
        (if ?fused = [] then 0
         else real (length (filter fr_agreement ?fused)) / real (length ?fused))"
    using H by blast
  have finite: "\<forall>cs. cs \<noteq> [] \<and> map fr_confidence ?fused = map Finite cs
           \<longrightarrow> stat_average_confidence ?final = Finite (sum_list cs / real (length cs))"
  proof (intro allI impI)
    fix cs assume h: "cs \<noteq> [] \<and> map fr_confidence ?fused = map Finite cs"
    then have len: "length ?fused = length cs" using map_eq_imp_length_eq by blast
    with h have ne: "?fused \<noteq> []" by auto
    show "stat_average_confidence ?final = Finite (sum_list cs / real (length cs))"
      unfolding mean using ne h len by (simp add: np_sum_finite)
  qed
  have i3d: "stat_i3d_only ?final =
        length (filter (\<lambda>p. model p = ''i3d'') (singles_of (fst (run_fusions t inputs))))"
    and tgcn: "stat_tgcn_only ?final =
        length (filter (\<lambda>p. model p = ''tgcn'') (singles_of (fst (run_fusions t inputs))))"
    using run_counters[of t inputs] c0 by simp_all
  from count mean finite rate i3d tgcn show ?thesis by (intro conjI)
qed

theorem running_statistics_witness:
  "stats (EnsembleTranslator_init None) = stats (EnsembleTranslator_init None)
   \<and> stat_ensemble_predictions (stats (snd (run_fusions (EnsembleTranslator_init None)
        [[\<lparr> success = True, model = ''i3d'', prediction = 1, confidence = 0.95,
            probabilities = [0.05, 0.95], top_k_indices = [1, 0], top_k_confidences = [0.95, 0.05] \<rparr>,
          \<lparr> success = True, model = ''tgcn'', prediction = 1, confidence = 0.9,
            probabilities = [0.1, 0.9], top_k_indices = [1, 0], top_k_confidences = [0.9, 0.1] \<rparr>],
         [\<lparr> success = True, model = ''tgcn'', prediction = 0, confidence = 0.7,
            probabilities = [0.7, 0.3], top_k_indices = [0, 1], top_k_confidences = [0.7, 0.3] \<rparr>]]))) = 1
   \<and> stat_average_confidence (stats (snd (run_fusions (EnsembleTranslator_init None)
        [[\<lparr> success = True, model = ''i3d'', prediction = 1, confidence = 0.95,
            probabilities = [0.05, 0.95], top_k_indices = [1, 0], top_k_confidences = [0.95, 0.05] \<rparr>,
          \<lparr> success = True, model = ''tgcn'', prediction = 1, confidence = 0.9,
            probabilities = [0.1, 0.9], top_k_indices = [1, 0], top_k_confidences = [0.9, 0.1] \<rparr>],
         [\<lparr> success = True, model = ''tgcn'', prediction = 0, confidence = 0.7,
            probabilities = [0.7, 0.3], top_k_indices = [0, 1], top_k_confidences = [0.7, 0.3] \<rparr>]])))
       = Finite 0.93
   \<and> stat_tgcn_only (stats (snd (run_fusions (EnsembleTranslator_init None)
        [[\<lparr> success = True, model = ''i3d'', prediction = 1, confidence = 0.95,
            probabilities = [0.05, 0.95], top_k_indices = [1, 0], top_k_confidences = [0.95, 0.05] \<rparr>,
          \<lparr> success = True, model = ''tgcn'', prediction = 1, confidence = 0.9,
            probabilities = [0.1, 0.9], top_k_indices = [1, 0], top_k_confidences = [0.9, 0.1] \<rparr>],
         [\<lparr> success = True, model = ''tgcn'', prediction = 0, confidence = 0.7,
            probabilities = [0.7, 0.3], top_k_indices = [0, 1], top_k_confidences = [0.7, 0.3] \<rparr>]]))) = 1
   \<and> stats (EnsembleTranslator_init (Some [(''i3d'', 1), (''tgcn'', - 1)]))
       = stats (EnsembleTranslator_init None)
   \<and> stat_ensemble_predictions (stats (snd (run_fusions
        (EnsembleTranslator_init (Some [(''i3d'', 1), (''tgcn'', - 1)]))
        [[\<lparr> success = True, model = ''i3d'', prediction = 1, confidence = 0.95,
            probabilities = [0.05, 0.95], top_k_indices = [1, 0], top_k_confidences = [0.95, 0.05] \<rparr>,
          \<lparr> success = True, model = ''tgcn'', prediction = 1, confidence = 0.9,
            probabilities = [0.1, 0.9], top_k_indices = [1, 0], top_k_confidences = [0.9, 0.1] \<rparr>]]))) = 1
   \<and> stat_average_confidence (stats (snd (run_fusions
        (EnsembleTranslator_init (Some [(''i3d'', 1), (''tgcn'', - 1)]))
        [[\<lparr> success = True, model = ''i3d'', prediction = 1, confidence = 0.95,
            probabilities = [0.05, 0.95], top_k_indices = [1, 0], top_k_confidences = [0.95, 0.05] \<rparr>,
          \<lparr> success = True, model = ''tgcn'', prediction = 1, confidence = 0.9,
            probabilities = [0.1, 0.9], top_k_indices = [1, 0], top_k_confidences = [0.9, 0.1] \<rparr>]])))
       = PosInf"
proof -
  let ?p1 = "\<lparr> success = True, model = ''i3d'', prediction = 1, confidence = 0.95,
            probabilities = [0.05, 0.95], top_k_indices = [1, 0], top_k_confidences = [0.95, 0.05] \<rparr>"
  let ?p2 = "\<lparr> success = True, model = ''tgcn'', prediction = 1, confidence = 0.9,
            probabilities = [0.1, 0.9], top_k_indices = [1, 0], top_k_confidences = [0.9, 0.1] \<rparr>"
  let ?p3 = "\<lparr> success = True, model = ''tgcn'', prediction = 0, confidence = 0.7,
            probabilities = [0.7, 0.3], top_k_indices = [0, 1], top_k_confidences = [0.7, 0.3] \<rparr>"
  let ?t = "EnsembleTranslator_init None"
  let ?z = "EnsembleTranslator_init (Some [(''i3d'', 1), (''tgcn'', - 1)])"
  have fused: "map fr_confidence (fused_of (fst (run_fusions ?t [[?p1, ?p2], [?p3]]))) = [Finite 0.93]"
    by (simp add: ensemble_predictions_def EnsembleTranslator_init_def Let_def weight_of_def
          np_iadd_def model_entry_def deque_append_def np_div_def)
  have singles: "map model (singles_of (fst (run_fusions ?t [[?p1, ?p2], [?p3]]))) = [''tgcn'']"
    by (simp add: ensemble_predictions_def EnsembleTranslator_init_def Let_def weight_of_def
          np_iadd_def model_entry_def deque_append_def np_div_def)
  have zfused: "map fr_confidence (fused_of (fst (run_fusions ?z [[?p1, ?p2]]))) = [PosInf]"
    by (simp add: ensemble_predictions_def EnsembleTranslator_init_def Let_def weight_of_def
          np_iadd_def model_entry_def deque_append_def np_div_def)
  have len: "length (fused_of (fst (run_fusions ?t [[?p1, ?p2], [?p3]]))) = 1"
    using arg_cong[OF fused, of length] by simp
  then have ne: "fused_of (fst (run_fusions ?t [[?p1, ?p2], [?p3]])) \<noteq> []" by auto
  have zlen: "length (fused_of (fst (run_fusions ?z [[?p1, ?p2]]))) = 1"
    using arg_cong[OF zfused, of length] by simp
  then have zne: "fused_of (fst (run_fusions ?z [[?p1, ?p2]])) \<noteq> []" by auto
  have tg: "length (filter (\<lambda>p. model p = ''tgcn'') (singles_of (fst (run_fusions ?t [[?p1, ?p2], [?p3]])))) = 1"
    using arg_cong[OF singles, of "\<lambda>ms. length (filter (\<lambda>m. m = ''tgcn'') ms)"]
    by (simp add: filter_map comp_def)
  have zstats: "stats ?z = stats ?t" by (simp add: EnsembleTranslator_init_def)
  from running_statistics[of ?t None "[[?p1, ?p2], [?p3]]"]
  have a: "stat_ensemble_predictions (stats (snd (run_fusions ?t [[?p1, ?p2], [?p3]]))) = 1"
    and b: "stat_average_confidence (stats (snd (run_fusions ?t [[?p1, ?p2], [?p3]]))) = Finite 0.93"
    and c: "stat_tgcn_only (stats (snd (run_fusions ?t [[?p1, ?p2], [?p3]]))) = 1"
    by (simp_all only: fused len ne tg if_False simp_thms np_sum_def foldl.simps np_add.simps
          np_quot.simps of_nat_1 div_by_1 add_0)
  from running_statistics[OF zstats, of "[[?p1, ?p2]]"]
  have d: "stat_ensemble_predictions (stats (snd (run_fusions ?z [[?p1, ?p2]]))) = 1"
    and e: "stat_average_confidence (stats (snd (run_fusions ?z [[?p1, ?p2]]))) = PosInf"
    by (simp_all only: zfused zlen zne if_False simp_thms np_sum_def foldl.simps np_add.simps
          np_quot.simps of_nat_1 zero_less_one if_True)
  from a b c d e zstats show ?thesis by simp
qed

text \<open>
  C7 as stated fails after a single-channel fusion: it returns the prediction of
  confidence 0.9, and the prediction count stays 0 and the mean confidence stays 0.
\<close>

theorem single_fusion_leaves_count_and_mean:
  "ensemble_predictions (EnsembleTranslator_init None)
     [\<lparr> success = True, model = ''tgcn'', prediction = 1, confidence = 0.9,
        probabilities = [0.1, 0.9], top_k_indices = [1, 0], top_k_confidences = [0.9, 0.1] \<rparr>]
   = Inr (SingleModel
            \<lparr> success = True, model = ''tgcn'', prediction = 1, confidence = 0.9,
              probabilities = [0.1, 0.9], top_k_indices = [1, 0], top_k_confidences = [0.9, 0.1] \<rparr>
            ''ensemble_single'' [''tgcn''],
          (EnsembleTranslator_init None)
            \<lparr> stats := \<lparr> stat_ensemble_predictions = 0, stat_i3d_only = 0, stat_tgcn_only = 1,
                         stat_agreement_rate = 0, stat_average_confidence = Finite 0 \<rparr> \<rparr>)"
  by (simp add: ensemble_predictions_def EnsembleTranslator_init_def Let_def)

subsection \<open>The channel weights\<close>

lemma map2_add_scale:
  fixes a b :: "real list"
  shows "map2 (+) (map (\<lambda>x. x / c) a) (map (\<lambda>x. x / c) b) = map (\<lambda>x. x / c) (map2 (+) a b)"
  by (induction a arbitrary: b) (auto simp: add_divide_distrib split: list.splits intro: list.exhaust
      simp: zip_Cons1)

lemma np_iadd_scale:
  "np_iadd (map (\<lambda>x. x / c) a) (map (\<lambda>x. x / c) b) =
     (case np_iadd a b of Inl e \<Rightarrow> Inl e | Inr v \<Rightarrow> Inr (map (\<lambda>x. x / c) v))"
proof (cases "length b = length a")
  case True
  then show ?thesis by (simp add: np_iadd_def map2_add_scale)
next
  case False
  show ?thesis
  proof (cases "length b = 1")
    case True
    then obtain y where b: "b = [y]" by (cases b) auto
    show ?thesis using False by (simp add: np_iadd_def b add_divide_distrib)
  next
    case False2: False
    with False show ?thesis by (simp add: np_iadd_def)
  qed
qed

lemma fuse_loop_scale:
  assumes "\<forall>p\<in>set ps. weight_of ws' (model p) = weight_of ws (model p) / c"
  shows "fuse_loop ws' ps (map_option (map (\<lambda>x. x / c)) acc) results =
     (case fuse_loop ws ps acc results of
        Inl e \<Rightarrow> Inl e
      | Inr (a, r) \<Rightarrow> Inr (map_option (map (\<lambda>x. x / c)) a, r))"
  using assms
proof (induction ps arbitrary: acc results)
  case Nil
  show ?case by simp
next
  case (Cons p ps)
  let ?w = "weight_of ws (model p)"
  let ?b = "map (\<lambda>x. x * ?w) (probabilities p)"
  have w': "weight_of ws' (model p) = ?w / c" using Cons.prems by simp
  have b': "map (\<lambda>x. x * weight_of ws' (model p)) (probabilities p) = map (\<lambda>x. x / c) ?b"
    by (simp add: w')
  have rest: "\<forall>q\<in>set ps. weight_of ws' (model q) = weight_of ws (model q) / c"
    using Cons.prems by simp
  note IH = Cons.IH[OF rest]
  show ?case
  proof (cases acc)
    case None
    have "fuse_loop ws' (p # ps) (map_option (map (\<lambda>x. x / c)) acc) results =
        fuse_loop ws' ps (map_option (map (\<lambda>x. x / c)) (Some ?b))
          (dict_set results (model p) (model_entry p))"
      using None by (simp add: Let_def b')
    also have "\<dots> = (case fuse_loop ws ps (Some ?b) (dict_set results (model p) (model_entry p)) of
        Inl e \<Rightarrow> Inl e
      | Inr (a, r) \<Rightarrow> Inr (map_option (map (\<lambda>x. x / c)) a, r))"
      by (rule IH)
    finally show ?thesis using None by (simp add: Let_def)
  next
    case (Some e)
    have unfold': "fuse_loop ws' (p # ps) (Some (map (\<lambda>x. x / c) e)) results =
        (case np_iadd (map (\<lambda>x. x / c) e) (map (\<lambda>x. x / c) ?b) of
           Inl err \<Rightarrow> Inl err
         | Inr v \<Rightarrow> fuse_loop ws' ps (Some v) (dict_set results (model p) (model_entry p)))"
      by (simp only: fuse_loop.simps Let_def b' option.case)
    have unfold: "fuse_loop ws (p # ps) (Some e) results =
        (case np_iadd e ?b of
           Inl err \<Rightarrow> Inl err
         | Inr v \<Rightarrow> fuse_loop ws ps (Some v) (dict_set results (model p) (model_entry p)))"
      by (simp only: fuse_loop.simps Let_def option.case)
    show ?thesis
    proof (cases "np_iadd e ?b")
      case (Inl err)
      show ?thesis
        unfolding Some option.map unfold' unfold np_iadd_scale Inl by simp
    next
      case (Inr v)
      have "fuse_loop ws' ps (map_option (map (\<lambda>x. x / c)) (Some v))
            (dict_set results (model p) (model_entry p)) =
         (case fuse_loop ws ps (Some v) (dict_set results (model p) (model_entry p)) of
            Inl e \<Rightarrow> Inl e
          | Inr (a, r) \<Rightarrow> Inr (map_option (map (\<lambda>x. x / c)) a, r))"
        by (rule IH)
      then show ?thesis
        unfolding Some option.map unfold' unfold np_iadd_scale Inr by simp
    qed
  qed
qed

lemma weight_of_scaled:
  assumes "m \<in> fst ` set ws"
  shows "weight_of (map (\<lambda>(k, v). (k, v / c)) ws) m = weight_of ws m / c"
proof -
  have "map_of (map (\<lambda>(k, v). (k, v / c)) ws) m = map_option (\<lambda>v. v / c) (map_of ws m)"
    by (induction ws) auto
  moreover from assms obtain w where "map_of ws m = Some w"
    by (metis domD dom_map_of_conv_image_fst)
  ultimately show ?thesis by (simp add: weight_of_def)
qed

lemma sum_scaled:
  fixes ws :: "(string \<times> real) list"
  shows "sum_list (map snd (map (\<lambda>(k, v). (k, v / c)) ws)) = sum_list (map snd ws) / c"
  by (induction ws) (auto simp: add_divide_distrib)

lemma fusion_scale_invariant:
  assumes c: "c \<noteq> 0" and nz: "sum_list (map snd ws) \<noteq> 0"
    and keys: "\<forall>p\<in>set predictions. success p \<longrightarrow> model p \<in> fst ` set ws"
  shows "ensemble_predictions (t\<lparr> ensemble_weights := map (\<lambda>(k, v). (k, v / c)) ws \<rparr>) predictions =
     (case ensemble_predictions (t\<lparr> ensemble_weights := ws \<rparr>) predictions of
        Inl e \<Rightarrow> Inl e
      | Inr (r, t') \<Rightarrow> Inr (r, t'\<lparr> ensemble_weights := map (\<lambda>(k, v). (k, v / c)) ws \<rparr>))"
proof -
  let ?ws' = "map (\<lambda>(k, v). (k, v / c)) ws"
  let ?valid = "filter success predictions"
  let ?total = "sum_list (map snd ws)"
  have scaled: "\<forall>p\<in>set ?valid. weight_of ?ws' (model p) = weight_of ws (model p) / c"
    using keys by (simp add: weight_of_scaled)
  have loop: "fuse_loop ?ws' ?valid None [] =
     (case fuse_loop ws ?valid None [] of
        Inl e \<Rightarrow> Inl e
      | Inr (a, r) \<Rightarrow> Inr (map_option (map (\<lambda>x. x / c)) a, r))"
    using fuse_loop_scale[OF scaled, of None "[]"] by simp
  have total: "sum_list (map snd ?ws') = ?total / c" by (rule sum_scaled)
  have div: "\<And>x. np_div (x / c) (?total / c) = np_div x ?total"
    using c nz by (simp add: np_div_def)
  have probs: "\<And>e. map (\<lambda>x. np_div x (?total / c)) (map (\<lambda>x. x / c) e)
      = map (\<lambda>x. np_div x ?total) e"
    by (simp add: div)
  show ?thesis
  proof (cases "?valid = [] \<or> length ?valid = 1")
    case True
    then show ?thesis by (auto simp: ensemble_predictions_def Let_def)
  next
    case False
    then have v: "?valid \<noteq> []" "length ?valid \<noteq> 1" by simp_all
    show ?thesis
    proof (cases "fuse_loop ws ?valid None []")
      case (Inl err)
      then show ?thesis using v loop by (simp add: ensemble_predictions_def Let_def)
    next
      case (Inr a)
      obtain acc mr where a: "a = (acc, mr)" by (cases a)
      have loop': "fuse_loop ?ws' ?valid None [] = Inr (map_option (map (\<lambda>x. x / c)) acc, mr)"
        using loop Inr a by simp
      show ?thesis
      proof (cases acc)
        case None
        then show ?thesis using v loop' Inr a
          by (simp add: ensemble_predictions_def Let_def)
      next
        case (Some e)
        have unfold_new: "ensemble_predictions (t\<lparr> ensemble_weights := ?ws' \<rparr>) predictions =
          (let ensemble_probs = map (\<lambda>x. np_div x (?total / c)) (map (\<lambda>x. x / c) e)
           in if ensemble_probs = [] then Inl ValueError
              else Inr (Ensemble
                     \<lparr> fr_prediction = np_argmax ensemble_probs,
                       fr_confidence = ensemble_probs ! np_argmax ensemble_probs,
                       fr_probabilities = ensemble_probs,
                       fr_method = ''ensemble'',
                       fr_models_used = map fst mr,
                       fr_model_results = mr,
                       fr_agreement = (length (remdups (map (\<lambda>r. mr_prediction (snd r)) mr)) = 1) \<rparr>,
                   t\<lparr> ensemble_weights := ?ws',
                      stats := (stats t)
                        \<lparr> stat_ensemble_predictions := stat_ensemble_predictions (stats t) + 1,
                          stat_agreement_rate :=
                            (stat_agreement_rate (stats t) * real (stat_ensemble_predictions (stats t))
                               + (if length (remdups (map (\<lambda>r. mr_prediction (snd r)) mr)) = 1
                                  then 1 else 0))
                            / real (stat_ensemble_predictions (stats t) + 1),
                          stat_average_confidence :=
                            np_quot (np_add (np_scale (stat_average_confidence (stats t))
                                               (real (stat_ensemble_predictions (stats t))))
                                            (ensemble_probs ! np_argmax ensemble_probs))
                                    (real (stat_ensemble_predictions (stats t) + 1)) \<rparr>,
                      results_cache := deque_append 10 (results_cache t)
                        \<lparr> fr_prediction = np_argmax ensemble_probs,
                          fr_confidence = ensemble_probs ! np_argmax ensemble_probs,
                          fr_probabilities = ensemble_probs,
                          fr_method = ''ensemble'',
                          fr_models_used = map fst mr,
                          fr_model_results = mr,
                          fr_agreement = (length (remdups (map (\<lambda>r. mr_prediction (snd r)) mr)) = 1) \<rparr> \<rparr>))"
          using v loop' Some
          by (simp add: ensemble_predictions_def Let_def total
                   del: map_map np_argmax.simps)
        have unfold_old: "ensemble_predictions (t\<lparr> ensemble_weights := ws \<rparr>) predictions =
          (let ensemble_probs = map (\<lambda>x. np_div x ?total) e
           in if ensemble_probs = [] then Inl ValueError
              else Inr (Ensemble
                     \<lparr> fr_prediction = np_argmax ensemble_probs,
                       fr_confidence = ensemble_probs ! np_argmax ensemble_probs,
                       fr_probabilities = ensemble_probs,
                       fr_method = ''ensemble'',
                       fr_models_used = map fst mr,
                       fr_model_results = mr,
                       fr_agreement = (length (remdups (map (\<lambda>r. mr_prediction (snd r)) mr)) = 1) \<rparr>,
                   t\<lparr> ensemble_weights := ws,
                      stats := (stats t)
                        \<lparr> stat_ensemble_predictions := stat_ensemble_predictions (stats t) + 1,
                          stat_agreement_rate :=
                            (stat_agreement_rate (stats t) * real (stat_ensemble_predictions (stats t))
                               + (if length (remdups (map (\<lambda>r. mr_prediction (snd r)) mr)) = 1
                                  then 1 else 0))
                            / real (stat_ensemble_predictions (stats t) + 1),
                          stat_average_confidence :=
                            np_quot (np_add (np_scale (stat_average_confidence (stats t))
                                               (real (stat_ensemble_predictions (stats t))))
                                            (ensemble_probs ! np_argmax ensemble_probs))
                                    (real (stat_ensemble_predictions (stats t) + 1)) \<rparr>,
                      results_cache := deque_append 10 (results_cache t)
                        \<lparr> fr_prediction = np_argmax ensemble_probs,
                          fr_confidence = ensemble_probs ! np_argmax ensemble_probs,
                          fr_probabilities = ensemble_probs,
                          fr_method = ''ensemble'',
                          fr_models_used = map fst mr,
                          fr_model_results = mr,
                          fr_agreement = (length (remdups (map (\<lambda>r. mr_prediction (snd r)) mr)) = 1) \<rparr> \<rparr>))"
          using v Inr a Some
          by (simp add: ensemble_predictions_def Let_def
                   del: map_map np_argmax.simps)
        show ?thesis
          unfolding unfold_new unfold_old probs
          by (simp add: Let_def del: np_argmax.simps)
      qed
    qed
  qed
qed

lemma sum_list_divide_const:
  fixes f :: "'a \<Rightarrow> real"
  shows "(\<Sum>x\<leftarrow>xs. f x) / c = (\<Sum>x\<leftarrow>xs. f x / c)"
  by (induction xs) (simp_all add: add_divide_distrib)

text \<open>
  C5, as amended. \<open>update_ensemble_weights\<close> stores the given weights divided by their
  total, so the stored weights sum to 1 (for a non-empty weight table with a non-zero
  total). The constructor stores the weights it is given as they are. In a fusion of two
  or more valid predictions whose channels all have a stored weight, the fused score at
  each index is the sum of the channels' scores there, each scaled by its channel's
  stored weight, divided by the sum of the stored weights: it is the sum of the scores
  under the weights divided by their total, which sum to 1. So the fusion under the
  stored weights returns what the fusion under the normalised weights returns.
\<close>

theorem weights_normalised_in_effect:
  assumes "weights \<noteq> []" and "sum_list (map snd weights) \<noteq> 0"
  shows
    "let total = sum_list (map snd weights);
         normalised = map (\<lambda>(k, v). (k, v / total)) weights;
         valid = filter success predictions;
         weight = (\<lambda>x. case map_of weights (model x) of Some w \<Rightarrow> w | None \<Rightarrow> 1 / 2)
     in update_ensemble_weights t weights = Inr (t\<lparr> ensemble_weights := normalised \<rparr>)
      \<and> sum_list (map snd normalised) = 1
      \<and> ensemble_weights (EnsembleTranslator_init (Some weights)) = weights
      \<and> (2 \<le> length valid \<and> distinct (map model valid) \<and> 0 < n
            \<and> (\<forall>x\<in>set valid. length (probabilities x) = n \<and> model x \<in> fst ` set weights)
          \<longrightarrow> (\<exists>r t'. ensemble_predictions (t\<lparr> ensemble_weights := weights \<rparr>) predictions
                          = Inr (Ensemble r, t')
                \<and> length (fr_probabilities r) = n
                \<and> (\<forall>i<n. fr_probabilities r ! i =
                             Finite ((\<Sum>x\<leftarrow>valid. weight x * probabilities x ! i) / total)
                         \<and> fr_probabilities r ! i =
                             Finite (\<Sum>x\<leftarrow>valid. weight x / total * probabilities x ! i))))
      \<and> ((\<forall>p\<in>set predictions. success p \<longrightarrow> model p \<in> fst ` set weights) \<longrightarrow>
          ensemble_predictions (t\<lparr> ensemble_weights := normalised \<rparr>) predictions =
          (case ensemble_predictions (t\<lparr> ensemble_weights := weights \<rparr>) predictions of
             Inl e \<Rightarrow> Inl e
           | Inr (r, t') \<Rightarrow> Inr (r, t'\<lparr> ensemble_weights := normalised \<rparr>)))"
proof -
  let ?total = "sum_list (map snd weights)"
  let ?normalised = "map (\<lambda>(k, v). (k, v / ?total)) weights"
  let ?valid = "filter success predictions"
  let ?weight = "\<lambda>x. case map_of weights (model x) of Some w \<Rightarrow> w | None \<Rightarrow> 1 / 2"
  let ?t = "t\<lparr> ensemble_weights := weights \<rparr>"
  have upd: "update_ensemble_weights t weights = Inr (t\<lparr> ensemble_weights := ?normalised \<rparr>)"
    using assms by (simp add: update_ensemble_weights_def Let_def)
  have one: "sum_list (map snd ?normalised) = 1"
    using assms(2) by (simp only: sum_scaled) simp
  have init: "ensemble_weights (EnsembleTranslator_init (Some weights)) = weights"
    using assms(1) by (simp add: EnsembleTranslator_init_def)
  have w: "\<And>x. weight_of weights (model x) = ?weight x"
    by (simp add: weight_of_def split: option.splits)
  have formula: "2 \<le> length ?valid \<and> distinct (map model ?valid) \<and> 0 < n
            \<and> (\<forall>x\<in>set ?valid. length (probabilities x) = n \<and> model x \<in> fst ` set weights)
          \<longrightarrow> (\<exists>r t'. ensemble_predictions ?t predictions = Inr (Ensemble r, t')
                \<and> length (fr_probabilities r) = n
                \<and> (\<forall>i<n. fr_probabilities r ! i =
                             Finite ((\<Sum>x\<leftarrow>?valid. ?weight x * probabilities x ! i) / ?total)
                         \<and> fr_probabilities r ! i =
                             Finite (\<Sum>x\<leftarrow>?valid. ?weight x / ?total * probabilities x ! i)))"
  proof
    assume h: "2 \<le> length ?valid \<and> distinct (map model ?valid) \<and> 0 < n
            \<and> (\<forall>x\<in>set ?valid. length (probabilities x) = n \<and> model x \<in> fst ` set weights)"
    then obtain p q rest where pq: "?valid = p # q # rest"
      by (cases ?valid; cases "tl ?valid") auto
    have len: "\<forall>x\<in>set (p # q # rest). length (probabilities x) = n"
      using h unfolding pq by simp
    have dist: "distinct (map model (p # q # rest))" using h unfolding pq by simp
    have n: "0 < n" using h by simp
    from ensemble_path[OF pq len dist n, of ?t]
    obtain r t' where res: "ensemble_predictions ?t predictions = Inr (Ensemble r, t')"
      and probs: "fr_probabilities r =
          map (\<lambda>i. np_div (\<Sum>x\<leftarrow>?valid. ?weight x * probabilities x ! i) ?total) [0..<n]"
      unfolding pq[symmetric] by (auto simp: w)
    have plen: "length (fr_probabilities r) = n" unfolding probs by simp
    have pnth: "\<forall>i<n. fr_probabilities r ! i =
                             Finite ((\<Sum>x\<leftarrow>?valid. ?weight x * probabilities x ! i) / ?total)
                         \<and> fr_probabilities r ! i =
                             Finite (\<Sum>x\<leftarrow>?valid. ?weight x / ?total * probabilities x ! i)"
    proof (intro allI impI)
      fix i assume i: "i < n"
      have a: "fr_probabilities r ! i =
          Finite ((\<Sum>x\<leftarrow>?valid. ?weight x * probabilities x ! i) / ?total)"
        unfolding probs using i assms(2) by (simp add: np_div_def)
      have "(\<Sum>x\<leftarrow>?valid. ?weight x * probabilities x ! i) / ?total
          = (\<Sum>x\<leftarrow>?valid. ?weight x * probabilities x ! i / ?total)"
        by (rule sum_list_divide_const)
      also have "\<dots> = (\<Sum>x\<leftarrow>?valid. ?weight x / ?total * probabilities x ! i)"
        by (simp add: field_simps)
      finally show "fr_probabilities r ! i =
                             Finite ((\<Sum>x\<leftarrow>?valid. ?weight x * probabilities x ! i) / ?total)
                         \<and> fr_probabilities r ! i =
                             Finite (\<Sum>x\<leftarrow>?valid. ?weight x / ?total * probabilities x ! i)"
        using a by simp
    qed
    from res plen pnth show "\<exists>r t'. ensemble_predictions ?t predictions = Inr (Ensemble r, t')
                \<and> length (fr_probabilities r) = n
                \<and> (\<forall>i<n. fr_probabilities r ! i =
                             Finite ((\<Sum>x\<leftarrow>?valid. ?weight x * probabilities x ! i) / ?total)
                         \<and> fr_probabilities r ! i =
                             Finite (\<Sum>x\<leftarrow>?valid. ?weight x / ?total * probabilities x ! i))"
      by blast
  qed
  have fuse: "(\<forall>p\<in>set predictions. success p \<longrightarrow> model p \<in> fst ` set weights) \<longrightarrow>
          ensemble_predictions (t\<lparr> ensemble_weights := ?normalised \<rparr>) predictions =
          (case ensemble_predictions ?t predictions of
             Inl e \<Rightarrow> Inl e
           | Inr (r, t') \<Rightarrow> Inr (r, t'\<lparr> ensemble_weights := ?normalised \<rparr>))"
    using fusion_scale_invariant[OF assms(2) assms(2), of predictions t] by blast
  from upd one init formula fuse show ?thesis
    unfolding Let_def by (intro conjI)
qed

theorem weights_normalised_in_effect_witness:
  "[(''i3d'', 3 :: real), (''tgcn'', 1)] \<noteq> []
   \<and> sum_list (map snd [(''i3d'', 3 :: real), (''tgcn'', 1)]) \<noteq> 0
   \<and> update_ensemble_weights (EnsembleTranslator_init None) [(''i3d'', 3), (''tgcn'', 1)] =
       Inr ((EnsembleTranslator_init None)\<lparr> ensemble_weights := [(''i3d'', 3 / 4), (''tgcn'', 1 / 4)] \<rparr>)
   \<and> (case ensemble_predictions
          ((EnsembleTranslator_init None)\<lparr> ensemble_weights := [(''i3d'', 3), (''tgcn'', 1)] \<rparr>)
          [\<lparr> success = True, model = ''i3d'', prediction = 1, confidence = 0.95,
             probabilities = [0.05, 0.95], top_k_indices = [1, 0], top_k_confidences = [0.95, 0.05] \<rparr>,
           \<lparr> success = True, model = ''tgcn'', prediction = 0, confidence = 0.6,
             probabilities = [0.6, 0.4], top_k_indices = [0, 1], top_k_confidences = [0.6, 0.4] \<rparr>] of
        Inr (Ensemble r, t') \<Rightarrow> fr_probabilities r = [Finite 0.1875, Finite 0.8125]
      | _ \<Rightarrow> False)"
proof -
  let ?w = "[(''i3d'', 3 :: real), (''tgcn'', 1)]"
  let ?p1 = "\<lparr> success = True, model = ''i3d'', prediction = 1, confidence = 0.95,
             probabilities = [0.05, 0.95], top_k_indices = [1, 0], top_k_confidences = [0.95, 0.05] \<rparr>"
  let ?p2 = "\<lparr> success = True, model = ''tgcn'', prediction = 0, confidence = 0.6,
             probabilities = [0.6, 0.4], top_k_indices = [0, 1], top_k_confidences = [0.6, 0.4] \<rparr>"
  let ?t = "EnsembleTranslator_init None"
  have ne: "?w \<noteq> []" and nz: "sum_list (map snd ?w) \<noteq> 0" by simp_all
  note T = weights_normalised_in_effect[OF ne nz, where t = ?t and predictions = "[?p1, ?p2]"
      and n = 2, unfolded Let_def]
  from T have upd: "update_ensemble_weights ?t ?w =
      Inr (?t\<lparr> ensemble_weights := [(''i3d'', 3 / 4), (''tgcn'', 1 / 4)] \<rparr>)"
    by simp
  from T obtain r t' where
    res: "ensemble_predictions (?t\<lparr> ensemble_weights := ?w \<rparr>) [?p1, ?p2] = Inr (Ensemble r, t')"
    and len: "length (fr_probabilities r) = 2"
    and p0: "fr_probabilities r ! 0 = Finite 0.1875"
    and p1: "fr_probabilities r ! 1 = Finite 0.8125"
    by (auto simp: less_2_cases_iff)
  have "fr_probabilities r = [fr_probabilities r ! 0, fr_probabilities r ! 1]"
    using len by (cases "fr_probabilities r"; cases "tl (fr_probabilities r)") auto
  then have "fr_probabilities r = [Finite 0.1875, Finite 0.8125]"
    using p0 p1 by simp
  with res upd ne nz show ?thesis by simp
qed

text \<open>
  C5 as stated fails for weights supplied at construction: the weights 3 and 1 are stored
  as given, they sum to 4, and the loop scales the two score vectors by 3 and by 1.
\<close>

theorem constructor_weights_not_normalised:
  "ensemble_weights (EnsembleTranslator_init (Some [(''i3d'', 3), (''tgcn'', 1)]))
     = [(''i3d'', 3), (''tgcn'', 1)]
   \<and> sum_list (map snd (ensemble_weights (EnsembleTranslator_init (Some [(''i3d'', 3), (''tgcn'', 1)])))) = 4
   \<and> map_sum id fst
        (fuse_loop (ensemble_weights (EnsembleTranslator_init (Some [(''i3d'', 3), (''tgcn'', 1)])))
          [\<lparr> success = True, model = ''i3d'', prediction = 0, confidence = 1,
             probabilities = [1, 0], top_k_indices = [0, 1], top_k_confidences = [1, 0] \<rparr>,
           \<lparr> success = True, model = ''tgcn'', prediction = 1, confidence = 1,
             probabilities = [0, 1], top_k_indices = [1, 0], top_k_confidences = [1, 0] \<rparr>]
          None [])
     = Inr (Some [3, 1])"
  by (simp add: EnsembleTranslator_init_def Let_def weight_of_def np_iadd_def)

end
